theory Spec2Isabelle
  imports Complex_Main
begin

section \<open>Python values\<close>

text \<open>
  The crosswalk simulation (\<^verbatim>\<open>sim.py\<close>) and its utilities (\<^verbatim>\<open>simutils.py\<close>) are embedded
  as HOL functions. A Python \<^verbatim>\<open>float\<close> is a \<^typ>\<open>real\<close>. The clock, the draws and the
  variates are idealised: their arithmetic is exact, and what the program computes
  agrees with it up to rounding. The braking terms of a car and the delay computed for
  it at the change to green are rounded after every operation as binary64 arithmetic
  rounds (\<open>fl\<close> below), because the value recorded depends on it.
  Python's unbounded \<^verbatim>\<open>int\<close> is \<^typ>\<open>int\<close>. Every exception the code can raise is a
  value of \<open>error\<close>, and a function that can raise returns \<open>error + 'a\<close>.
\<close>

datatype error =
  StopIteration | IndexError | ValueError | ZeroDivisionError
  | NameError | AttributeError | NotImplementedError | RuntimeError

text \<open>\<^verbatim>\<open>int(x)\<close> on a float truncates towards zero.\<close>

definition py_int :: "real \<Rightarrow> int" where
  "py_int x = (if 0 \<le> x then \<lfloor>x\<rfloor> else \<lceil>x\<rceil>)"

text \<open>\<^verbatim>\<open>x / y\<close> on floats raises \<^verbatim>\<open>ZeroDivisionError\<close> when \<^verbatim>\<open>y\<close> is zero.\<close>

definition py_div :: "real \<Rightarrow> real \<Rightarrow> error + real" where
  "py_div x y = (if y = 0 then Inl ZeroDivisionError else Inr (x / y))"

text \<open>\<^verbatim>\<open>math.log(x)\<close> raises \<^verbatim>\<open>ValueError\<close> (math domain error) unless \<^verbatim>\<open>x\<close> is positive.\<close>

definition math_log :: "real \<Rightarrow> error + real" where
  "math_log x = (if x \<le> 0 then Inl ValueError else Inr (ln x))"

text \<open>
  The result of a float operation is the exact result rounded to the nearest number
  with a significand of 53 bits, a tie going to the even significand. \<open>rne\<close> rounds to
  the nearest integer, ties to even; \<open>fl x\<close> scales \<open>x\<close> by the power of two that brings
  it into \<open>[2\<^sup>5\<^sup>2, 2\<^sup>5\<^sup>3)\<close>, rounds, and scales back. Overflow and subnormal numbers do
  not occur for the quantities rounded here (distances, speeds and times of the
  simulation) and are not modelled.
\<close>

definition rne :: "real \<Rightarrow> int" where
  "rne y = (if y - of_int \<lfloor>y\<rfloor> < 1 / 2 then \<lfloor>y\<rfloor>
            else if 1 / 2 < y - of_int \<lfloor>y\<rfloor> then \<lfloor>y\<rfloor> + 1
            else if even \<lfloor>y\<rfloor> then \<lfloor>y\<rfloor> else \<lfloor>y\<rfloor> + 1)"

definition fl :: "real \<Rightarrow> real" where
  "fl x = (if x = 0 then 0
           else of_int (rne (x / 2 powr (of_int \<lfloor>log 2 \<bar>x\<bar>\<rfloor> - 52)))
                * 2 powr (of_int \<lfloor>log 2 \<bar>x\<bar>\<rfloor> - 52))"

section \<open>The trace-file reader \<^verbatim>\<open>Token\<close>\<close>

text \<open>
  A \<^verbatim>\<open>Token\<close> wraps an open trace file and the generator \<^verbatim>\<open>iterate()\<close> over its lines.
  The file is the list of the lines not yet read, each line given by what
  \<^verbatim>\<open>float(line.strip())\<close> does on it: \<open>Some v\<close> when it parses to \<open>v\<close>, \<open>None\<close> when it
  raises \<^verbatim>\<open>ValueError\<close>. \<open>finished\<close> records that the generator has returned or raised,
  after which every \<^verbatim>\<open>next(self.iter)\<close> raises \<^verbatim>\<open>StopIteration\<close>.
\<close>

record Token =
  trace :: "real option list"
  curval :: real
  count :: int
  finished :: bool


text \<open>
  An exception that leaves a generator's body: since Python 3.7 (PEP 479) a
  \<^verbatim>\<open>StopIteration\<close> raised inside the body reaches the caller of \<^verbatim>\<open>next\<close> as
  \<^verbatim>\<open>RuntimeError\<close>; every other exception passes unchanged.
\<close>

definition generator_raise :: "error \<Rightarrow> error" where
  "generator_raise e = (if e = StopIteration then RuntimeError else e)"

text \<open>
  One \<^verbatim>\<open>next(self.iter)\<close> on the generator \<^verbatim>\<open>iterate\<close>: the \<^verbatim>\<open>for\<close> loop ends at the end
  of the file and the generator returns (the caller sees \<^verbatim>\<open>StopIteration\<close>); a line that
  parses is yielded; on a line that does not, the handler of \<^verbatim>\<open>ValueError\<close> executes
  \<^verbatim>\<open>raise StopIteration\<close> inside the generator.
\<close>

definition iterate :: "Token \<Rightarrow> (error + real) \<times> Token" where
  "iterate t =
     (if finished t then (Inl StopIteration, t)
      else (case trace t of
              [] \<Rightarrow> (Inl StopIteration, t\<lparr>finished := True\<rparr>)
            | Some v # rest \<Rightarrow> (Inr v, t\<lparr>trace := rest\<rparr>)
            | None # rest \<Rightarrow>
                (Inl (generator_raise StopIteration), t\<lparr>trace := rest, finished := True\<rparr>)))"

text \<open>
  \<^verbatim>\<open>Token.next\<close>: only \<^verbatim>\<open>StopIteration\<close> is caught (the diagnostic is printed and
  \<^verbatim>\<open>0.0\<close> returned); any other exception escapes to the caller.
\<close>

definition Token_next :: "Token \<Rightarrow> (error + real) \<times> Token" where
  "Token_next t =
     (case iterate t of
        (Inr v, t') \<Rightarrow> (Inr v, t'\<lparr>curval := v, count := count t' + 1\<rparr>)
      | (Inl e, t') \<Rightarrow> (if e = StopIteration then (Inr 0.0, t') else (Inl e, t')))"

section \<open>Sources of uniform draws\<close>

text \<open>
  Every variate function starts with
  \<^verbatim>\<open>u = (token.next() if type(token) is Token else random())\<close>.
  A source is either a \<^verbatim>\<open>Token\<close>, or the pseudorandom generator behind \<^verbatim>\<open>random()\<close>,
  given by the sequence of values its successive calls return and the number of calls
  made so far.
\<close>

datatype source = PyRandom "nat \<Rightarrow> real" nat | Tok Token

fun draw :: "source \<Rightarrow> error + (real \<times> source)" where
  "draw (PyRandom f n) = Inr (f n, PyRandom f (Suc n))"
| "draw (Tok t) =
     (case Token_next t of
        (Inr v, t') \<Rightarrow> Inr (v, Tok t')
      | (Inl e, t') \<Rightarrow> Inl e)"

section \<open>Random variates\<close>

definition bernouli :: "real \<Rightarrow> source \<Rightarrow> error + (bool \<times> source)" where
  "bernouli p token =
     (case draw token of
        Inl e \<Rightarrow> Inl e
      | Inr (u, token') \<Rightarrow> Inr (u \<ge> 1.0 - p, token'))"



definition equilikely :: "int \<Rightarrow> int \<Rightarrow> source \<Rightarrow> error + (int \<times> source)" where
  "equilikely a b token =
     (case draw token of
        Inl e \<Rightarrow> Inl e
      | Inr (u, token') \<Rightarrow> Inr (a + py_int (real_of_int (b - a + 1) * u), token'))"


definition uniform :: "real \<Rightarrow> real \<Rightarrow> source \<Rightarrow> error + (real \<times> source)" where
  "uniform a b token =
     (case draw token of
        Inl e \<Rightarrow> Inl e
      | Inr (u, token') \<Rightarrow> Inr (a + ((b - a) * u), token'))"


definition exponential :: "real \<Rightarrow> source \<Rightarrow> error + (real \<times> source)" where
  "exponential l token =
     (if l \<le> 0.0 then Inl ValueError
      else (case draw token of
              Inl e \<Rightarrow> Inl e
            | Inr (u, token') \<Rightarrow>
                (case math_log (1.0 - u) of
                   Inl e \<Rightarrow> Inl e
                 | Inr lg \<Rightarrow> Inr (- l * lg, token'))))"

section \<open>Welford's one-pass mean and variance\<close>

record Welford =
  avg :: real
  var :: real
  i :: nat

definition Welford_init :: Welford where
  "Welford_init = \<lparr>avg = 0.0, var = 0.0, i = 0\<rparr>"

text \<open>
  \<^verbatim>\<open>insert\<close>: the sample is already a number, so \<^verbatim>\<open>float(x)\<close> does not raise. Both new
  values are computed from the old mean \<^verbatim>\<open>self.avg\<close> and the incremented counter.
\<close>

definition Welford_insert :: "real \<Rightarrow> Welford \<Rightarrow> Welford" where
  "Welford_insert x w =
     (let i' = i w + 1;
          avg' = avg w + ((x - avg w) / real i');
          var' = var w + (real (i' - 1) * ((x - avg w) ^ 2) / real i')
      in w\<lparr>avg := avg', var := var', i := i'\<rparr>)"

definition mean :: "Welford \<Rightarrow> real" where
  "mean w = avg w"

definition variance :: "Welford \<Rightarrow> real" where
  "variance w = (if i w > 0 then var w / real (i w) else 0)"

text \<open>The accumulator after inserting the samples \<open>xs\<close> one after the other.\<close>

definition Welford_of :: "real list \<Rightarrow> Welford" where
  "Welford_of xs = foldl (\<lambda>w x. Welford_insert x w) Welford_init xs"

text \<open>
  The closed forms the accumulator is compared with: the arithmetic mean and the
  population variance (no Bessel correction) of the whole sample history.
\<close>

definition sample_mean :: "real list \<Rightarrow> real" where
  "sample_mean xs = sum_list xs / real (length xs)"

definition population_variance :: "real list \<Rightarrow> real" where
  "population_variance xs = (\<Sum>x\<leftarrow>xs. (x - sample_mean xs) ^ 2) / real (length xs)"

section \<open>Simulation constants\<close>

definition BLOCKWIDTH :: real where "BLOCKWIDTH = 330"
definition STREETWIDTH :: real where "STREETWIDTH = 46"
definition CROSSWIDTH :: real where "CROSSWIDTH = 24"
definition REDTIMEOUT :: real where "REDTIMEOUT = 18.0"
definition YELLOWTIMEOUT :: real where "YELLOWTIMEOUT = 8.0"
definition GREENTIMEOUT :: real where "GREENTIMEOUT = 35.0"
definition LENGTH :: real where "LENGTH = 9"
definition VJA :: real where "VJA = 100 / 3"
definition VJB :: real where "VJB = 154 / 3"
definition CARACC :: real where "CARACC = 10"
definition VKA :: real where "VKA = 2.6"
definition VKB :: real where "VKB = 4.1"
definition MAXPEDS :: int where "MAXPEDS = 20"

section \<open>Data of the simulation\<close>

datatype EventType =
  TimerExpire | PedSpawn | PedArrive | PedImpatient | CarSpawn | CarArrive | CarExit

datatype LightState = GREEN | YELLOW | RED | GREENWAIT | GREENWAITPRESSED

record Event =
  at_ev :: real
  type_ev :: EventType
  id_ev :: int

record Light =
  state :: LightState
  walkexpire :: real

record Ped =
  id_ped :: int
  at_ped :: real
  speed_ped :: real
  atlight :: real
  walktime :: real

record PedManager =
  walking :: "Ped list"
  waiting :: "Ped list"
  count_pm :: int

record Car =
  id_car :: int
  atime :: real
  speed :: real
  brakedist :: real
  braketime :: real
  shouldstop :: bool
  stoptime :: real

record CarManager =
  driving :: "Car list"
  stopped :: "Car list"
  total :: real
  before :: real
  after :: real

text \<open>
  The messages appended to \<^verbatim>\<open>sim.log\<close>, one constructor for each format string, with
  the values the string is formatted from. No control flow reads the log; \<^verbatim>\<open>next\<close>
  empties it before it dispatches an event, and every handler runs inside \<^verbatim>\<open>next\<close>.
\<close>

datatype log_entry =
  LightChanged LightState
  | PedPressed int
  | PedSpawned int
  | PedTooLate int
  | PedWaiting int
  | PedGrownImpatient int
  | PedCrossed int real
  | CarShouldStop int
  | CarLeft int real real
  | CarSpawned int
  | CarWillNotMake int
  | CarWillMake int
  | CarLeftNoDelay int real

text \<open>
  The simulation object with the objects it owns. The back pointers \<^verbatim>\<open>self.sim\<close> of the
  light and of the two managers are the simulation itself, so every method takes and
  returns the whole \<open>Simulation\<close>. The debug flag and its printing are left out.
\<close>

record Simulation =
  time :: real
  queue :: "Event list"
  maxn :: int
  npeds :: int
  ncars :: int
  light :: Light
  peds :: PedManager
  cars :: CarManager
  peddelay :: Welford
  cardelay :: Welford
  eventcount :: int
  totalevents :: int
  lambdap :: real
  lambdaa :: real
  pedrandom :: source
  autorandom :: source
  buttonrandom :: source
  log_sim :: "log_entry list"

text \<open>
  \<^verbatim>\<open>Light.timer\<close> reads the clock through the module-level name \<^verbatim>\<open>sim\<close>, not through
  \<^verbatim>\<open>self.sim\<close>. That name is bound only by the script's \<^verbatim>\<open>__main__\<close> block; what it is
  bound to is a parameter of the model: nothing, the simulation that owns the light, or
  another simulation whose clock shows the given time.
\<close>

datatype global_sim = Unbound | Owner | Other real

section \<open>The event queue\<close>

text \<open>
  The queue is a \<^verbatim>\<open>heapq\<close> heap of events ordered by \<^verbatim>\<open>Event.__lt__\<close>, which compares
  the times. The library is modelled by its contract: the queue is the collection of
  the pending events, \<^verbatim>\<open>heappush\<close> adds one, and \<^verbatim>\<open>heappop\<close> removes and returns an
  event that no pending event is less than. Which one of several events with the same
  time it returns is left open.
\<close>

definition lt_ev :: "Event \<Rightarrow> Event \<Rightarrow> bool" where
  "lt_ev e other = (at_ev e < at_ev other)"

definition heappush :: "Event list \<Rightarrow> Event \<Rightarrow> Event list" where
  "heappush q ev = q @ [ev]"

definition heappop_returns :: "Event list \<Rightarrow> Event \<Rightarrow> bool" where
  "heappop_returns q ev = (ev \<in> set q \<and> (\<forall>x \<in> set q. \<not> lt_ev x ev))"

definition Simulation_insert :: "real \<Rightarrow> EventType \<Rightarrow> int \<Rightarrow> Simulation \<Rightarrow> Simulation" where
  "Simulation_insert delta ty ident s =
     s\<lparr>queue := heappush (queue s) \<lparr>at_ev = time s + delta, type_ev = ty, id_ev = ident\<rparr>,
       totalevents := totalevents s + 1\<rparr>"

definition add_log :: "log_entry \<Rightarrow> Simulation \<Rightarrow> Simulation" where
  "add_log m s = s\<lparr>log_sim := log_sim s @ [m]\<rparr>"

section \<open>List access as in Python\<close>

text \<open>\<^verbatim>\<open>xs[k]\<close>: a negative index counts from the end; out of range raises.\<close>

definition py_index :: "'a list \<Rightarrow> int \<Rightarrow> error + 'a" where
  "py_index xs k =
     (if 0 \<le> k \<and> k < int (length xs) then Inr (xs ! nat k)
      else if k < 0 \<and> - int (length xs) \<le> k then Inr (xs ! nat (int (length xs) + k))
      else Inl IndexError)"

text \<open>
  The loops \<^verbatim>\<open>for i, x in enumerate(xs): if x.id == id: ...\<close> act on the first element
  with the identifier: the list is split there into the elements before it, the element
  and the elements after it.
\<close>

fun split_first :: "('a \<Rightarrow> bool) \<Rightarrow> 'a list \<Rightarrow> ('a list \<times> 'a \<times> 'a list) option" where
  "split_first P [] = None"
| "split_first P (x # xs) =
     (if P x then Some ([], x, xs)
      else (case split_first P xs of
              None \<Rightarrow> None
            | Some (pre, y, post) \<Rightarrow> Some (x # pre, y, post)))"

section \<open>The car manager\<close>

text \<open>
  \<^verbatim>\<open>Car.__init__\<close>. The speed is drawn between \<^verbatim>\<open>VJA\<close> and \<^verbatim>\<open>VJB\<close>. The two braking
  fields are float results, each operation rounded: \<^verbatim>\<open>(speed ** 2) / (2 * CARACC)\<close> is
  the rounded square divided by 20 and rounded again (\<^verbatim>\<open>speed ** 2\<close> taken as the
  correctly rounded square, which is what \<^verbatim>\<open>speed * speed\<close> gives), and
  \<^verbatim>\<open>speed / CARACC\<close> is the rounded quotient.
\<close>

definition Car_init :: "int \<Rightarrow> real \<Rightarrow> source \<Rightarrow> error + (Car \<times> source)" where
  "Car_init ident at_time atoken =
     (case uniform VJA VJB atoken of
        Inl e \<Rightarrow> Inl e
      | Inr (sp, atoken') \<Rightarrow>
          Inr (\<lparr>id_car = ident, atime = at_time, speed = sp,
                brakedist = fl (fl (sp ^ 2) / (2 * CARACC)), braketime = fl (sp / CARACC),
                shouldstop = False, stoptime = -1\<rparr>, atoken'))"

text \<open>
  What \<^verbatim>\<open>Car.__init__\<close> establishes between the fields of a car and no method changes
  afterwards; the speed is not zero for a car that \<^verbatim>\<open>spawn\<close> has accepted, since
  \<^verbatim>\<open>spawn\<close> divides by it.
\<close>

definition car_built :: "Car \<Rightarrow> bool" where
  "car_built car =
     (speed car \<noteq> 0 \<and> brakedist car = fl (fl (speed car ^ 2) / (2 * CARACC))
      \<and> braketime car = fl (speed car / CARACC))"

definition CarManager_init :: CarManager where
  "CarManager_init =
     (let total = (7 * BLOCKWIDTH) + (6 * STREETWIDTH)
      in \<lparr>driving = [], stopped = [], total = total,
          before = (total - CROSSWIDTH) / 2,
          after = ((total + CROSSWIDTH) / 2) + LENGTH\<rparr>)"

text \<open>The two values \<^verbatim>\<open>lightchange\<close> computes for a driving car at the change to yellow.\<close>

definition posa :: "real \<Rightarrow> Car \<Rightarrow> error + real" where
  "posa t car = py_div (t + YELLOWTIMEOUT - atime car) (speed car)"

definition posb :: "real \<Rightarrow> Car \<Rightarrow> error + real" where
  "posb t car = py_div (t + YELLOWTIMEOUT + REDTIMEOUT - atime car) (speed car)"

text \<open>The loop over \<^verbatim>\<open>self.driving\<close> at the change to yellow, with the messages it logs.\<close>

fun lightchange_yellow ::
  "real \<Rightarrow> real \<Rightarrow> real \<Rightarrow> Car list \<Rightarrow> error + (Car list \<times> log_entry list)" where
  "lightchange_yellow t bef aft [] = Inr ([], [])"
| "lightchange_yellow t bef aft (car # rest) =
     (case posa t car of
        Inl e \<Rightarrow> Inl e
      | Inr pa \<Rightarrow>
          (case posb t car of
             Inl e \<Rightarrow> Inl e
           | Inr pb \<Rightarrow>
               (case lightchange_yellow t bef aft rest of
                  Inl e \<Rightarrow> Inl e
                | Inr (rest', msgs) \<Rightarrow>
                    (if pa < aft \<or> pb > bef
                     then Inr (car\<lparr>shouldstop := True\<rparr> # rest',
                               CarShouldStop (id_car car) # msgs)
                     else Inr (car # rest', msgs)))))"

text \<open>
  The loop \<^verbatim>\<open>for i in range(len(self.stopped))\<close> at the change to green; the first
  argument is the number of iterations left. Each iteration pops the last stopped car.
  Its arithmetic is float arithmetic, every operation rounded: the product, the
  difference and the quotient of \<^verbatim>\<open>basetime\<close>, the difference \<^verbatim>\<open>stoptime\<close>, the two sums of
  \<^verbatim>\<open>time\<close> from left to right, the quotient \<^verbatim>\<open>self.total / car.speed\<close> and the difference
  \<^verbatim>\<open>delay\<close> (the product by 2 is exact, and rounding it changes nothing).
\<close>

fun lightchange_green :: "nat \<Rightarrow> Simulation \<Rightarrow> error + Simulation" where
  "lightchange_green 0 s = Inr s"
| "lightchange_green (Suc n) s =
     (if stopped (cars s) = [] then Inl IndexError
      else
        (let car = last (stopped (cars s));
             s1 = s\<lparr>cars := (cars s)\<lparr>stopped := butlast (stopped (cars s))\<rparr>\<rparr>
         in (case py_div (fl (total (cars s1) - fl (2 * brakedist car))) (speed car) of
               Inl e \<Rightarrow> Inl e
             | Inr q \<Rightarrow>
                 (let basetime = fl q;
                      acctime = braketime car;
                      stoptime' = fl (time s1 - stoptime car);
                      time' = fl (fl (basetime + acctime) + stoptime')
                  in (case py_div (total (cars s1)) (speed car) of
                        Inl e \<Rightarrow> Inl e
                      | Inr freeflow \<Rightarrow>
                          (let delay = fl (time' - fl freeflow)
                           in lightchange_green n
                                (add_log (CarLeft (id_car car) time' delay)
                                   (s1\<lparr>cardelay := Welford_insert delay (cardelay s1)\<rparr>))))))))"

text \<open>
  The two values an iteration of that loop computes for a car: \<^verbatim>\<open>time\<close>, its total time
  in the simulation, and \<^verbatim>\<open>delay\<close>, the sample inserted into \<^verbatim>\<open>cardelay\<close>; \<open>tot\<close> is
  \<^verbatim>\<open>self.total\<close> and \<open>now\<close> the clock.
\<close>

definition release_time :: "real \<Rightarrow> real \<Rightarrow> Car \<Rightarrow> real" where
  "release_time tot now car =
     fl (fl (fl (fl (tot - fl (2 * brakedist car)) / speed car) + braketime car)
         + fl (now - stoptime car))"

definition release_delay :: "real \<Rightarrow> real \<Rightarrow> Car \<Rightarrow> real" where
  "release_delay tot now car = fl (release_time tot now car - fl (tot / speed car))"

definition CarManager_lightchange :: "LightState \<Rightarrow> Simulation \<Rightarrow> error + Simulation" where
  "CarManager_lightchange st s =
     (if st = YELLOW then
        (case lightchange_yellow (time s) (before (cars s)) (after (cars s))
                (driving (cars s)) of
           Inl e \<Rightarrow> Inl e
         | Inr (ds, msgs) \<Rightarrow>
             Inr (s\<lparr>cars := (cars s)\<lparr>driving := ds\<rparr>, log_sim := log_sim s @ msgs\<rparr>))
      else if st = GREEN then lightchange_green (length (stopped (cars s))) s
      else Inr s)"

definition CarManager_spawn :: "Car \<Rightarrow> Simulation \<Rightarrow> error + Simulation" where
  "CarManager_spawn car s =
     (let s1 = s\<lparr>cars := (cars s)\<lparr>driving := driving (cars s) @ [car]\<rparr>\<rparr>
      in (case py_div (before (cars s1) - brakedist car) (speed car) of
            Inl e \<Rightarrow> Inl e
          | Inr d1 \<Rightarrow>
              (let s2 = Simulation_insert d1 CarArrive (id_car car) s1
               in (case py_div (total (cars s2)) (speed car) of
                     Inl e \<Rightarrow> Inl e
                   | Inr d2 \<Rightarrow>
                       Inr (add_log (CarSpawned (id_car car))
                              (Simulation_insert d2 CarExit (id_car car) s2))))))"

text \<open>
  \<^verbatim>\<open>arrive\<close>: the car object is the same in both branches, so the assignment to
  \<^verbatim>\<open>car.stoptime\<close> after the branch updates it where the branch has put it.
\<close>

definition CarManager_arrive :: "int \<Rightarrow> Simulation \<Rightarrow> Simulation" where
  "CarManager_arrive ident s =
     (case split_first (\<lambda>car. id_car car = ident) (driving (cars s)) of
        None \<Rightarrow> s
      | Some (pre, car, post) \<Rightarrow>
          (if shouldstop car \<and> (state (light s) = YELLOW \<or> state (light s) = RED)
           then add_log (CarWillNotMake ident)
                  (s\<lparr>cars := (cars s)\<lparr>driving := pre @ post,
                       stopped := stopped (cars s) @ [car\<lparr>stoptime := time s\<rparr>]\<rparr>\<rparr>)
           else add_log (CarWillMake ident)
                  (s\<lparr>cars := (cars s)\<lparr>driving := pre @ car\<lparr>stoptime := time s\<rparr> # post\<rparr>\<rparr>)))"

definition CarManager_exit :: "int \<Rightarrow> Simulation \<Rightarrow> Simulation" where
  "CarManager_exit ident s =
     (case split_first (\<lambda>car. id_car car = ident) (driving (cars s)) of
        None \<Rightarrow> s
      | Some (pre, car, post) \<Rightarrow>
          add_log (CarLeftNoDelay ident (time s - atime car))
            (s\<lparr>cars := (cars s)\<lparr>driving := pre @ post\<rparr>,
               cardelay := Welford_insert 0.0 (cardelay s)\<rparr>))"

section \<open>The pedestrian manager\<close>

definition Ped_init :: "int \<Rightarrow> real \<Rightarrow> source \<Rightarrow> error + (Ped \<times> source)" where
  "Ped_init ident at_time ptoken =
     (case uniform VKA VKB ptoken of
        Inl e \<Rightarrow> Inl e
      | Inr (sp, ptoken') \<Rightarrow>
          (case py_div (BLOCKWIDTH + STREETWIDTH) sp of
             Inl e \<Rightarrow> Inl e
           | Inr al \<Rightarrow>
               (case py_div STREETWIDTH sp of
                  Inl e \<Rightarrow> Inl e
                | Inr wt \<Rightarrow>
                    Inr (\<lparr>id_ped = ident, at_ped = at_time, speed_ped = sp,
                          atlight = al, walktime = wt\<rparr>, ptoken'))))"

definition PedManager_init :: PedManager where
  "PedManager_init = \<lparr>walking = [], waiting = [], count_pm = 0\<rparr>"

text \<open>
  \<^verbatim>\<open>getped\<close> looks in \<^verbatim>\<open>walking\<close> first, then in \<^verbatim>\<open>waiting\<close>, and removes the pedestrian
  it finds when \<^verbatim>\<open>popped\<close> is true.
\<close>

definition PedManager_getped :: "int \<Rightarrow> bool \<Rightarrow> PedManager \<Rightarrow> Ped option \<times> PedManager" where
  "PedManager_getped ident popped pm =
     (case split_first (\<lambda>ped. id_ped ped = ident) (walking pm) of
        Some (pre, ped, post) \<Rightarrow>
          (Some ped, if popped then pm\<lparr>walking := pre @ post\<rparr> else pm)
      | None \<Rightarrow>
          (case split_first (\<lambda>ped. id_ped ped = ident) (waiting pm) of
             Some (pre, ped, post) \<Rightarrow>
               (Some ped, if popped then pm\<lparr>waiting := pre @ post\<rparr> else pm)
           | None \<Rightarrow> (None, pm)))"

text \<open>
  \<^verbatim>\<open>cross\<close> signals exhausted capacity by raising \<^verbatim>\<open>StopIteration\<close>, which its two
  callers catch.
\<close>

definition PedManager_cross :: "Ped \<Rightarrow> Simulation \<Rightarrow> error + Simulation" where
  "PedManager_cross ped s =
     (if count_pm (peds s) < MAXPEDS then
        (let delay = time s - at_ped ped - atlight ped
         in Inr (add_log (PedCrossed (id_ped ped) delay)
                   (s\<lparr>peds := (peds s)\<lparr>count_pm := count_pm (peds s) + 1\<rparr>,
                      peddelay := Welford_insert delay (peddelay s)\<rparr>)))
      else Inl StopIteration)"

text \<open>
  The loop of \<^verbatim>\<open>deploy\<close>, \<^verbatim>\<open>for i in range(len(self.waiting))\<close> with the length taken
  once: the first argument is the number of iterations left, the second is \<^verbatim>\<open>i\<close>.
  \<^verbatim>\<open>getped\<close> removes the pedestrian before \<^verbatim>\<open>cross\<close> checks the capacity, and the
  \<^verbatim>\<open>StopIteration\<close> of \<^verbatim>\<open>cross\<close> ends the loop.
\<close>

fun deploy_loop :: "nat \<Rightarrow> nat \<Rightarrow> Simulation \<Rightarrow> error + Simulation" where
  "deploy_loop 0 k s = Inr s"
| "deploy_loop (Suc r) k s =
     (case py_index (waiting (peds s)) (int k - count_pm (peds s)) of
        Inl e \<Rightarrow> Inl e
      | Inr ped \<Rightarrow>
          (let s1 = s\<lparr>peds := snd (PedManager_getped (id_ped ped) True (peds s))\<rparr>
           in (case PedManager_cross ped s1 of
                 Inl e \<Rightarrow> (if e = StopIteration then Inr s1 else Inl e)
               | Inr s2 \<Rightarrow> deploy_loop r (Suc k) s2)))"

definition PedManager_deploy :: "Simulation \<Rightarrow> error + Simulation" where
  "PedManager_deploy s =
     deploy_loop (length (waiting (peds s))) 0 (s\<lparr>peds := (peds s)\<lparr>count_pm := 0\<rparr>\<rparr>)"

definition PedManager_spawn :: "Ped \<Rightarrow> Simulation \<Rightarrow> Simulation" where
  "PedManager_spawn ped s =
     add_log (PedSpawned (id_ped ped))
       (Simulation_insert (atlight ped) PedArrive (id_ped ped)
          (s\<lparr>peds := (peds s)\<lparr>walking := walking (peds s) @ [ped]\<rparr>\<rparr>))"

section \<open>The light\<close>

definition Light_init :: Light where
  "Light_init = \<lparr>state = GREEN, walkexpire = 0.0\<rparr>"

text \<open>The change to yellow, the same three statements in \<^verbatim>\<open>press\<close> and in \<^verbatim>\<open>timer\<close>.\<close>

definition to_yellow :: "Simulation \<Rightarrow> error + Simulation" where
  "to_yellow s =
     (let s1 = add_log (LightChanged YELLOW) (s\<lparr>light := (light s)\<lparr>state := YELLOW\<rparr>\<rparr>)
      in (case CarManager_lightchange YELLOW s1 of
            Inl e \<Rightarrow> Inl e
          | Inr s2 \<Rightarrow> Inr (Simulation_insert YELLOWTIMEOUT TimerExpire (-1) s2)))"

definition Light_press :: "Simulation \<Rightarrow> error + Simulation" where
  "Light_press s =
     (if state (light s) = GREENWAIT
      then Inr (s\<lparr>light := (light s)\<lparr>state := GREENWAITPRESSED\<rparr>\<rparr>)
      else if state (light s) = GREEN then to_yellow s
      else Inr s)"

text \<open>
  In the branch for yellow, \<^verbatim>\<open>self.walkexpire = sim.time + REDTIMEOUT\<close> evaluates the
  global name \<^verbatim>\<open>sim\<close> after the state has been set to red.
\<close>

definition Light_timer :: "global_sim \<Rightarrow> Simulation \<Rightarrow> error + Simulation" where
  "Light_timer g s =
     (if state (light s) = GREENWAITPRESSED then to_yellow s
      else if state (light s) = GREENWAIT
      then Inr (s\<lparr>light := (light s)\<lparr>state := GREEN\<rparr>\<rparr>)
      else if state (light s) = GREEN then Inr s
      else if state (light s) = YELLOW then
        (let s1 = add_log (LightChanged RED) (s\<lparr>light := (light s)\<lparr>state := RED\<rparr>\<rparr>)
         in (case (case g of
                     Unbound \<Rightarrow> Inl NameError
                   | Owner \<Rightarrow> Inr (time s1)
                   | Other t \<Rightarrow> Inr t) of
               Inl e \<Rightarrow> Inl e
             | Inr now \<Rightarrow>
                 (case PedManager_deploy
                         (s1\<lparr>light := (light s1)\<lparr>walkexpire := now + REDTIMEOUT\<rparr>\<rparr>) of
                    Inl e \<Rightarrow> Inl e
                  | Inr s2 \<Rightarrow> Inr (Simulation_insert REDTIMEOUT TimerExpire (-1) s2))))
      else
        (let s1 = add_log (LightChanged GREEN) (s\<lparr>light := (light s)\<lparr>state := GREENWAIT\<rparr>\<rparr>)
         in (case CarManager_lightchange GREEN s1 of
               Inl e \<Rightarrow> Inl e
             | Inr s2 \<Rightarrow> Inr (Simulation_insert GREENTIMEOUT TimerExpire (-1) s2))))"

section \<open>Pedestrians at the button\<close>

definition PedManager_press :: "int \<Rightarrow> int \<Rightarrow> Simulation \<Rightarrow> error + Simulation" where
  "PedManager_press n ident s =
     (case bernouli (if n = 0 then 15 / 16 else 1 / (real_of_int n + 1)) (buttonrandom s) of
        Inl e \<Rightarrow> Inl e
      | Inr (result, b') \<Rightarrow>
          (if result then Light_press (add_log (PedPressed ident) (s\<lparr>buttonrandom := b'\<rparr>))
           else Inr (s\<lparr>buttonrandom := b'\<rparr>)))"

text \<open>
  The end of \<^verbatim>\<open>arrive\<close>, reached when the pedestrian does not cross at once: the button
  model, the queue, the impatience event.
\<close>

definition enqueue :: "Ped \<Rightarrow> int \<Rightarrow> Simulation \<Rightarrow> error + Simulation" where
  "enqueue ped ident s =
     (case PedManager_press (int (length (waiting (peds s)))) ident s of
        Inl e \<Rightarrow> Inl e
      | Inr s1 \<Rightarrow>
          Inr (Simulation_insert 60.0 PedImpatient ident
                 (add_log (PedWaiting ident)
                    (s1\<lparr>peds := (peds s1)\<lparr>waiting := waiting (peds s1) @ [ped]\<rparr>\<rparr>))))"

text \<open>
  \<^verbatim>\<open>arrive\<close>. An arrival event is only scheduled by \<^verbatim>\<open>spawn\<close>, once for each pedestrian
  put into \<^verbatim>\<open>walking\<close>, so that \<^verbatim>\<open>getped\<close> finds the pedestrian of every arrival event of
  a run. When \<^verbatim>\<open>getped\<close> finds nobody, \<^verbatim>\<open>ped\<close> is \<^verbatim>\<open>None\<close>: with the light red the test
  \<^verbatim>\<open>ped.walktime <= ...\<close> raises \<^verbatim>\<open>AttributeError\<close> at once; with the light green or yellow
  the program appends \<^verbatim>\<open>None\<close> to \<^verbatim>\<open>waiting\<close> and raises \<^verbatim>\<open>AttributeError\<close> at the next
  \<^verbatim>\<open>getped\<close> or \<^verbatim>\<open>deploy\<close> that reads the queue up to that entry. The waiting queue of
  the embedding holds pedestrians only, and \<^verbatim>\<open>arrive\<close> with an identifier nobody has is
  the error in every state of the light. No property below is stated for that case.
\<close>

definition PedManager_arrive :: "int \<Rightarrow> Simulation \<Rightarrow> error + Simulation" where
  "PedManager_arrive ident s =
     (case PedManager_getped ident True (peds s) of
        (None, pm) \<Rightarrow> Inl AttributeError
      | (Some ped, pm) \<Rightarrow>
          (let s0 = s\<lparr>peds := pm\<rparr>
           in if state (light s0) = RED \<and> walktime ped \<le> walkexpire (light s0) - time s0
              then (case PedManager_cross ped s0 of
                      Inr s1 \<Rightarrow> Inr s1
                    | Inl e \<Rightarrow> (if e = StopIteration then enqueue ped ident s0 else Inl e))
              else if state (light s0) = RED
              then enqueue ped ident (add_log (PedTooLate ident) s0)
              else enqueue ped ident s0))"

definition PedManager_impatient :: "int \<Rightarrow> Simulation \<Rightarrow> error + Simulation" where
  "PedManager_impatient ident s =
     (case PedManager_getped ident False (peds s) of
        (None, pm) \<Rightarrow> Inr s
      | (Some ped, pm) \<Rightarrow>
          (case PedManager_press 0 ident (add_log (PedGrownImpatient ident) s) of
             Inl e \<Rightarrow> Inl e
           | Inr s1 \<Rightarrow> Inr (Simulation_insert 60.0 PedImpatient ident s1)))"

section \<open>The simulation\<close>

text \<open>
  \<^verbatim>\<open>self.insert(exponential(self.lambdap, self.pedrandom), EventType.PedSpawn)\<close> and the
  same for cars, as \<^verbatim>\<open>__init__\<close> and \<^verbatim>\<open>next\<close> both write them.
\<close>

definition insert_PedSpawn :: "Simulation \<Rightarrow> error + Simulation" where
  "insert_PedSpawn s =
     (case exponential (lambdap s) (pedrandom s) of
        Inl e \<Rightarrow> Inl e
      | Inr (d, p') \<Rightarrow> Inr (Simulation_insert d PedSpawn (-1) (s\<lparr>pedrandom := p'\<rparr>)))"

definition insert_CarSpawn :: "Simulation \<Rightarrow> error + Simulation" where
  "insert_CarSpawn s =
     (case exponential (lambdaa s) (autorandom s) of
        Inl e \<Rightarrow> Inl e
      | Inr (d, a') \<Rightarrow> Inr (Simulation_insert d CarSpawn (-1) (s\<lparr>autorandom := a'\<rparr>)))"

text \<open>
  The assignments of \<^verbatim>\<open>__init__\<close>, before it inserts the first four events.
  \<^verbatim>\<open>self.log\<close> is \<^verbatim>\<open>None\<close> until the first \<^verbatim>\<open>next\<close> assigns the empty string to it, and
  no method appends to it before; the embedding has the empty list of messages there,
  and \<^verbatim>\<open>next\<close> empties the list first, as the program does.
\<close>

definition Simulation_fields :: "int \<Rightarrow> source \<Rightarrow> source \<Rightarrow> source \<Rightarrow> Simulation" where
  "Simulation_fields n a p b =
     \<lparr>time = 0.0, queue = [], maxn = n, npeds = 0, ncars = 0,
      light = Light_init, peds = PedManager_init, cars = CarManager_init,
      peddelay = Welford_init, cardelay = Welford_init,
      eventcount = 0, totalevents = 0, lambdap = 20.0, lambdaa = 15.0,
      pedrandom = p, autorandom = a, buttonrandom = b, log_sim = []\<rparr>"

definition Simulation_init :: "int \<Rightarrow> source \<Rightarrow> source \<Rightarrow> source \<Rightarrow> error + Simulation" where
  "Simulation_init n a p b =
     (case insert_PedSpawn (Simulation_fields n a p b) of
        Inl e \<Rightarrow> Inl e
      | Inr s1 \<Rightarrow>
          (case insert_PedSpawn s1 of
             Inl e \<Rightarrow> Inl e
           | Inr s2 \<Rightarrow>
               (case insert_CarSpawn s2 of
                  Inl e \<Rightarrow> Inl e
                | Inr s3 \<Rightarrow> insert_CarSpawn s3)))"

text \<open>
  \<^verbatim>\<open>next\<close>, after \<^verbatim>\<open>heappop\<close> has returned the event \<open>ev\<close> (on an empty queue
  \<^verbatim>\<open>heappop\<close> raises \<^verbatim>\<open>IndexError\<close>, which ends \<^verbatim>\<open>start\<close>).
\<close>

definition Simulation_next :: "global_sim \<Rightarrow> Event \<Rightarrow> Simulation \<Rightarrow> error + Simulation" where
  "Simulation_next g ev s =
     (let s0 = s\<lparr>queue := remove1 ev (queue s), time := at_ev ev,
                 eventcount := eventcount s + 1, log_sim := []\<rparr>
      in if type_ev ev = TimerExpire then Light_timer g s0
         else if type_ev ev = PedSpawn \<and> npeds s0 < maxn s0 then
           (let s1 = s0\<lparr>npeds := npeds s0 + 1\<rparr>
            in (case Ped_init (npeds s1) (time s1) (pedrandom s1) of
                  Inl e \<Rightarrow> Inl e
                | Inr (ped, p') \<Rightarrow> insert_PedSpawn (PedManager_spawn ped (s1\<lparr>pedrandom := p'\<rparr>))))
         else if type_ev ev = PedArrive then PedManager_arrive (id_ev ev) s0
         else if type_ev ev = PedImpatient then PedManager_impatient (id_ev ev) s0
         else if type_ev ev = CarSpawn \<and> ncars s0 < maxn s0 then
           (let s1 = s0\<lparr>ncars := ncars s0 + 1\<rparr>
            in (case Car_init (ncars s1) (time s1) (autorandom s1) of
                  Inl e \<Rightarrow> Inl e
                | Inr (car, a') \<Rightarrow>
                    (case CarManager_spawn car (s1\<lparr>autorandom := a'\<rparr>) of
                       Inl e \<Rightarrow> Inl e
                     | Inr s2 \<Rightarrow> insert_CarSpawn s2)))
         else if type_ev ev = CarArrive then Inr (CarManager_arrive (id_ev ev) s0)
         else if type_ev ev = CarExit then Inr (CarManager_exit (id_ev ev) s0)
         else Inr s0)"

text \<open>
  The states \<^verbatim>\<open>start\<close> passes through from \<open>s0\<close>, each with the messages logged since
  \<open>s0\<close>: one \<^verbatim>\<open>next\<close> after the other, until \<^verbatim>\<open>heappop\<close> finds the queue empty or an
  exception escapes.
\<close>

inductive run :: "global_sim \<Rightarrow> Simulation \<Rightarrow> log_entry list \<Rightarrow> Simulation \<Rightarrow> bool"
  for g :: global_sim and s0 :: Simulation where
  run_start: "run g s0 [] s0"
| run_next:
    "run g s0 tr s \<Longrightarrow> heappop_returns (queue s) ev \<Longrightarrow> Simulation_next g ev s = Inr s'
      \<Longrightarrow> run g s0 (tr @ log_sim s') s'"

section \<open>Conditions on a run\<close>

text \<open>
  A source that keeps its contract: every draw is a number \<open>u\<close> with \<open>0 \<le> u < 1\<close>. For
  the pseudorandom generator these are the values \<^verbatim>\<open>random()\<close> returns; for a trace
  file every remaining line parses to such a number (after the end of the file the
  reader returns \<^verbatim>\<open>0.0\<close>).
\<close>

fun good_source :: "source \<Rightarrow> bool" where
  "good_source (PyRandom f n) = (\<forall>k. 0 \<le> f k \<and> f k < 1)"
| "good_source (Tok t) = (\<forall>l \<in> set (trace t). \<exists>v. l = Some v \<and> 0 \<le> v \<and> v < 1)"

text \<open>
  What \<^verbatim>\<open>__init__\<close> sets and no method changes: the arrival rates and the geometry of
  the car manager, \<open>7 * 330 + 6 * 46 = 2586\<close>, \<open>(2586 - 24) / 2 = 1281\<close> and
  \<open>(2586 + 24) / 2 + 9 = 1314\<close>; and that the three sources keep their contract.
\<close>

definition valid_config :: "Simulation \<Rightarrow> bool" where
  "valid_config s =
     (good_source (pedrandom s) \<and> good_source (autorandom s) \<and> good_source (buttonrandom s)
      \<and> lambdap s = 20 \<and> lambdaa s = 15
      \<and> total (cars s) = 2586 \<and> before (cars s) = 1281 \<and> after (cars s) = 1314)"

text \<open>No pending event lies before the clock.\<close>

definition pending_ahead :: "Simulation \<Rightarrow> bool" where
  "pending_ahead s = (\<forall>e \<in> set (queue s). time s \<le> at_ev e)"

text \<open>
  From \<open>s\<close> to \<open>s'\<close> the clock has not moved and events have only been inserted, each
  with a delay that is not negative.
\<close>

definition schedules_ahead :: "Simulation \<Rightarrow> Simulation \<Rightarrow> bool" where
  "schedules_ahead s s' =
     (time s' = time s
      \<and> (\<exists>new. queue s' = queue s @ new \<and> (\<forall>e \<in> set new. time s \<le> at_ev e)))"

text \<open>From \<open>s\<close> to \<open>s'\<close> neither the clock, the queue, the sources nor the constants changed.\<close>

definition same_frame :: "Simulation \<Rightarrow> Simulation \<Rightarrow> bool" where
  "same_frame s s' =
     (time s' = time s \<and> queue s' = queue s
      \<and> pedrandom s' = pedrandom s \<and> autorandom s' = autorandom s
      \<and> buttonrandom s' = buttonrandom s \<and> lambdap s' = lambdap s \<and> lambdaa s' = lambdaa s
      \<and> total (cars s') = total (cars s) \<and> before (cars s') = before (cars s)
      \<and> after (cars s') = after (cars s))"


text \<open>
  The cars that have left, read off the log: each message that a car has left the
  simulation is written next to one \<^verbatim>\<open>cardelay.insert\<close>, of the delay on a release at
  green and of \<^verbatim>\<open>0.0\<close> on an exit event. \<open>car_exits\<close> lists the car and the sample
  inserted, \<open>car_releases\<close> the cars released at green, and \<open>car_stops\<close> the cars
  that \<^verbatim>\<open>arrive\<close> has moved to \<^verbatim>\<open>stopped\<close>.
\<close>

fun car_exits :: "log_entry list \<Rightarrow> (int \<times> real) list" where
  "car_exits [] = []"
| "car_exits (CarLeft c t d # tr) = (c, d) # car_exits tr"
| "car_exits (CarLeftNoDelay c t # tr) = (c, 0) # car_exits tr"
| "car_exits (m # tr) = car_exits tr"

fun car_stops :: "log_entry list \<Rightarrow> int list" where
  "car_stops [] = []"
| "car_stops (CarWillNotMake c # tr) = c # car_stops tr"
| "car_stops (m # tr) = car_stops tr"

fun car_releases :: "log_entry list \<Rightarrow> int list" where
  "car_releases [] = []"
| "car_releases (CarLeft c t d # tr) = c # car_releases tr"
| "car_releases (m # tr) = car_releases tr"

text \<open>
  With the messages \<open>tr\<close> logged since \<^verbatim>\<open>__init__\<close>: the identifiers in \<^verbatim>\<open>driving\<close>, in
  \<^verbatim>\<open>stopped\<close> and of the cars that have left are all different and are exactly
  \<open>1, \<dots>, ncars\<close>; the accumulator holds exactly the samples of the cars that have left,
  none of them below \<open>- 2\<^sup>-\<^sup>4\<^sup>4\<close>; the cars moved to \<^verbatim>\<open>stopped\<close> are those still there and
  those released at green.
\<close>

definition cars_accounted :: "log_entry list \<Rightarrow> Simulation \<Rightarrow> bool" where
  "cars_accounted tr s =
     (distinct (map id_car (driving (cars s)) @ map id_car (stopped (cars s))
                @ map fst (car_exits tr))
      \<and> set (map id_car (driving (cars s)) @ map id_car (stopped (cars s))
                @ map fst (car_exits tr)) = {1..ncars s}
      \<and> cardelay s = Welford_of (map snd (car_exits tr))
      \<and> (\<forall>x \<in> set (car_exits tr). - (1 / 2 ^ 44) \<le> snd x)
      \<and> set (car_stops tr) = id_car ` set (stopped (cars s)) \<union> set (car_releases tr)
      \<and> 0 \<le> ncars s)"

text \<open>
  A stopped car's stop-decision time is not after the clock; every car is as
  \<^verbatim>\<open>Car.__init__\<close> builds it, with a speed between 33 and 52.
\<close>

definition cars_ok :: "Simulation \<Rightarrow> bool" where
  "cars_ok s =
     ((\<forall>car \<in> set (stopped (cars s)). stoptime car \<le> time s)
      \<and> (\<forall>car \<in> set (driving (cars s)) \<union> set (stopped (cars s)).
            car_built car \<and> 33 \<le> speed car \<and> speed car \<le> 52))"

text \<open>Every driving car has its exit event pending.\<close>

definition exits_pending :: "Simulation \<Rightarrow> bool" where
  "exits_pending s =
     (\<forall>car \<in> set (driving (cars s)).
        \<exists>e \<in> set (queue s). type_ev e = CarExit \<and> id_ev e = id_car car)"

text \<open>
  Cars are stopped only while the light is yellow or red, and a timer event is pending
  whenever the light is not in the stable state \<^verbatim>\<open>GREEN\<close>.
\<close>

definition light_sound :: "Simulation \<Rightarrow> bool" where
  "light_sound s =
     ((stopped (cars s) \<noteq> [] \<longrightarrow> state (light s) = YELLOW \<or> state (light s) = RED)
      \<and> (state (light s) \<noteq> GREEN \<longrightarrow> (\<exists>e \<in> set (queue s). type_ev e = TimerExpire)))"

definition cars_sound :: "Simulation \<Rightarrow> bool" where
  "cars_sound s = (cars_ok s \<and> exits_pending s \<and> light_sound s)"

text \<open>
  The pedestrians walking and waiting have different identifiers among \<open>1, \<dots>, npeds\<close>;
  the pending arrival events are for different pedestrians, all of them walking.
\<close>

definition peds_sound :: "Simulation \<Rightarrow> bool" where
  "peds_sound s =
     (distinct (map id_ped (walking (peds s) @ waiting (peds s)))
      \<and> (\<forall>e \<in> set (queue s). type_ev e = PedArrive \<longrightarrow> id_ev e \<in> id_ped ` set (walking (peds s)))
      \<and> distinct (map id_ev (filter (\<lambda>e. type_ev e = PedArrive) (queue s)))
      \<and> id_ped ` set (walking (peds s) @ waiting (peds s)) \<subseteq> {1..npeds s}
      \<and> 0 \<le> npeds s)"

text \<open>The first four statements of \<^verbatim>\<open>next\<close>: the state in which the event is dispatched.\<close>

definition popped :: "Event \<Rightarrow> Simulation \<Rightarrow> Simulation" where
  "popped ev s = s\<lparr>queue := remove1 ev (queue s), time := at_ev ev,
                   eventcount := eventcount s + 1, log_sim := []\<rparr>"

text \<open>
  What a button press can change: the button source is drawn from, messages about the
  light and about cars that should stop are logged, and the light stays as it is, or
  goes from \<^verbatim>\<open>GREENWAIT\<close> to \<^verbatim>\<open>GREENWAITPRESSED\<close>, or from \<^verbatim>\<open>GREEN\<close> to \<^verbatim>\<open>YELLOW\<close> with
  the driving cars marked and one timer event inserted.
\<close>

definition button_effect :: "Simulation \<Rightarrow> Simulation \<Rightarrow> bool" where
  "button_effect s s' =
     (time s' = time s \<and> peds s' = peds s \<and> npeds s' = npeds s \<and> ncars s' = ncars s
      \<and> cardelay s' = cardelay s \<and> stopped (cars s') = stopped (cars s)
      \<and> (driving (cars s') = driving (cars s)
          \<or> driving (cars s') = map (\<lambda>car. car\<lparr>shouldstop := True\<rparr>) (driving (cars s)))
      \<and> (\<exists>l. log_sim s' = log_sim s @ l
               \<and> car_exits l = [] \<and> car_stops l = [] \<and> car_releases l = [])
      \<and> ((queue s' = queue s
            \<and> (state (light s') = state (light s)
                \<or> (state (light s) = GREENWAIT \<and> state (light s') = GREENWAITPRESSED)))
          \<or> (state (light s) = GREEN \<and> state (light s') = YELLOW
              \<and> (\<exists>e. queue s' = queue s @ [e] \<and> type_ev e = TimerExpire))))"

text \<open>The conditions that hold in every state of a run of the script.\<close>

definition run_inv :: "log_entry list \<Rightarrow> Simulation \<Rightarrow> bool" where
  "run_inv tr s =
     (cars_accounted tr s \<and> cars_sound s \<and> peds_sound s \<and> valid_config s \<and> pending_ahead s)"

section \<open>Properties of the rounding\<close>

lemma rne_err: "\<bar>of_int (rne y) - y\<bar> \<le> 1 / 2"
proof -
  define f :: real where "f = of_int \<lfloor>y\<rfloor>"
  have "f \<le> y" "y < f + 1" unfolding f_def by linarith+
  then show ?thesis unfolding rne_def f_def [symmetric]
    by (cases "y - f < 1 / 2"; cases "1 / 2 < y - f"; cases "even \<lfloor>y\<rfloor>")
      (simp_all add: f_def [symmetric] abs_if)
qed

lemma fl_err: "\<bar>fl x - x\<bar> \<le> \<bar>x\<bar> / 2 ^ 53"
proof (cases "x = 0")
  case True
  then show ?thesis by (simp add: fl_def)
next
  case False
  define e where "e = \<lfloor>log 2 \<bar>x\<bar>\<rfloor>"
  define p :: real where "p = 2 powr (of_int e - 52)"
  have p: "0 < p" by (simp add: p_def)
  have fx: "fl x = of_int (rne (x / p)) * p" using False by (simp add: fl_def e_def p_def)
  have "fl x - x = (of_int (rne (x / p)) - x / p) * p" using p by (simp add: fx field_simps)
  then have "\<bar>fl x - x\<bar> = \<bar>of_int (rne (x / p)) - x / p\<bar> * p" using p by (simp add: abs_mult)
  also have "\<dots> \<le> (1 / 2) * p" using rne_err [of "x / p"] p by (intro mult_right_mono) simp_all
  finally have 1: "\<bar>fl x - x\<bar> \<le> p / 2" by simp
  have "of_int e \<le> log 2 \<bar>x\<bar>" unfolding e_def by linarith
  then have "2 powr of_int e \<le> \<bar>x\<bar>" using False by (simp add: le_log_iff)
  moreover have "p = 2 powr of_int e / 2 ^ 52"
    unfolding p_def by (simp add: powr_diff)
  ultimately have "p / 2 \<le> \<bar>x\<bar> / 2 ^ 53" by (simp add: field_simps)
  with 1 show ?thesis by linarith
qed

lemma binade:
  assumes "2 powr of_int e \<le> \<bar>x\<bar>" and "\<bar>x\<bar> < 2 powr (of_int e + 1)"
  shows "\<lfloor>log 2 \<bar>x\<bar>\<rfloor> = e"
proof -
  have pos: "0 < \<bar>x\<bar>" using assms(1) powr_gt_zero [of 2 "of_int e"] by linarith
  have "of_int e \<le> log 2 \<bar>x\<bar>" using assms(1) pos by (simp add: le_log_iff)
  moreover have "log 2 \<bar>x\<bar> < of_int e + 1" using assms(2) pos by (simp add: log_less_iff)
  ultimately show ?thesis by linarith
qed

lemma fl_up:
  fixes k :: nat
  assumes "2 ^ k \<le> \<bar>x\<bar>" and "\<bar>x\<bar> < 2 * 2 ^ k" and "k \<le> 52"
  shows "fl x = of_int (rne (x * 2 ^ (52 - k))) / 2 ^ (52 - k)"
proof -
  have "2 powr of_int (int k) = (2::real) ^ k" by (simp add: powr_realpow)
  moreover have "2 powr (of_int (int k) + 1) = (2::real) * 2 ^ k"
    by (simp add: powr_add powr_realpow)
  ultimately have b: "\<lfloor>log 2 \<bar>x\<bar>\<rfloor> = int k" using assms(1,2) by (intro binade) simp_all
  have x: "x \<noteq> 0"
  proof
    assume "x = 0"
    with assms(1) have "(2::real) ^ k \<le> 0" by simp
    moreover have "0 < (2::real) ^ k" by simp
    ultimately show False by linarith
  qed
  have eq: "of_int (int k) - 52 = - real (52 - k)" using assms(3) by simp
  have "(2::real) powr (of_int (int k) - 52) = 2 powr (- real (52 - k))" by (simp only: eq)
  also have "\<dots> = 1 / 2 powr real (52 - k)" by (simp only: powr_minus divide_inverse mult_1)
  also have "\<dots> = 1 / (2::real) ^ (52 - k)" by (simp only: powr_realpow zero_less_numeral)
  finally have "2 powr (of_int (int k) - 52) = 1 / (2::real) ^ (52 - k)" .
  then show ?thesis using x by (simp add: fl_def b)
qed


lemma fl_near:
  assumes "\<bar>x - y\<bar> \<le> e" and "\<bar>y\<bar> \<le> M" and "e + (M + e) / 9007199254740992 \<le> b"
  shows "\<bar>fl x - y\<bar> \<le> b"
proof -
  have "\<bar>x\<bar> \<le> M + e" using assms(1,2) by linarith
  then have "\<bar>x\<bar> / 2 ^ 53 \<le> (M + e) / 2 ^ 53" by (rule divide_right_mono) simp
  with fl_err [of x] have "\<bar>fl x - x\<bar> \<le> (M + e) / 9007199254740992" by simp
  with assms(1,3) show ?thesis by linarith
qed

lemma quotient_near:
  fixes v :: real
  assumes "\<bar>a - b\<bar> \<le> e" and "33 \<le> v"
  shows "\<bar>a / v - b / v\<bar> \<le> e / 33"
proof -
  have v: "0 < v" using assms(2) by simp
  have e: "0 \<le> e" using assms(1) by linarith
  have "\<bar>a / v - b / v\<bar> = \<bar>a - b\<bar> / v" using v by (simp add: diff_divide_distrib [symmetric])
  also have "\<dots> \<le> e / v" using assms(1) v by (simp add: divide_right_mono)
  also have "\<dots> \<le> e / 33" using e assms(2) by (intro divide_left_mono) simp_all
  finally show ?thesis .
qed

lemma brakedist_near:
  fixes v :: real
  assumes lo: "33 \<le> v" and hi: "v \<le> 52"
  shows "\<bar>fl (fl (v ^ 2) / 20) - v ^ 2 / 20\<bar> \<le> 271 / 9007199254740992"
proof -
  let ?u = "9007199254740992 :: real"
  have v: "0 < v" using lo by simp
  have "33 * 33 \<le> v * v" using lo by (intro mult_mono) simp_all
  moreover have "v * v \<le> 52 * 52" using hi v by (intro mult_mono) simp_all
  ultimately have sq: "1089 \<le> v ^ 2" "v ^ 2 \<le> 2704" by (simp_all add: power2_eq_square)
  define w where "w = v ^ 2"
  define A1 where "A1 = fl w"
  note sq = sq [folded w_def]
  have 1: "\<bar>A1 - w\<bar> \<le> 2704 / ?u"
    unfolding A1_def
    by (rule fl_near [where e = 0 and M = 2704]) (use sq in simp_all)
  have "\<bar>fl (A1 / 20) - w / 20\<bar> \<le> 271 / ?u"
  proof (rule fl_near [where e = "1352 / 10 / ?u" and M = "1352 / 10"])
    show "\<bar>A1 / 20 - w / 20\<bar> \<le> 1352 / 10 / ?u" using 1 by linarith
    show "\<bar>w / 20\<bar> \<le> 1352 / 10" using sq by linarith
  qed simp
  then show ?thesis unfolding A1_def w_def .
qed

lemma delay_error:
  fixes v d :: real
  assumes lo: "33 \<le> v" and hi: "v \<le> 52"
  shows "\<bar>fl (fl (fl (fl (fl (2586 - fl (2 * fl (fl (v ^ 2) / 20))) / v) + fl (v / 10)) + fl d)
              - fl (2586 / v)) - d\<bar>
         \<le> 1 / 2 ^ 44 + \<bar>d\<bar> / 2 ^ 50"
proof -
  let ?u = "9007199254740992 :: real"
  have v: "0 < v" using lo by simp
  have "33 * 33 \<le> v * v" using lo by (intro mult_mono) simp_all
  moreover have "v * v \<le> 52 * 52" using hi v by (intro mult_mono) simp_all
  ultimately have sq: "1089 \<le> v ^ 2" "v ^ 2 \<le> 2704" by (simp_all add: power2_eq_square)
  have q: "0 \<le> 2586 / v" "2586 / v \<le> 784 / 10"
    using lo v by (simp_all add: field_simps)
  define A1 where "A1 = fl (v ^ 2)"
  define A2 where "A2 = fl (A1 / 20)"
  define A3 where "A3 = fl (2 * A2)"
  define A4 where "A4 = fl (2586 - A3)"
  define A5 where "A5 = fl (A4 / v)"
  define B where "B = fl (v / 10)"
  define A6 where "A6 = fl (A5 + B)"
  define D where "D = fl d"
  define A7 where "A7 = fl (A6 + D)"
  define C where "C = fl (2586 / v)"
  define w where "w = v ^ 2"
  define r where "r = 2586 / v"
  define t where "t = \<bar>d\<bar>"
  have t: "0 \<le> t" by (simp add: t_def)
  note sq = sq [folded w_def] and q = q [folded r_def]
  have 1: "\<bar>A1 - w\<bar> \<le> 2704 / ?u"
    unfolding A1_def w_def [symmetric]
    by (rule fl_near [where e = 0 and M = 2704]) (use sq in simp_all)
  have 2: "\<bar>A2 - w / 20\<bar> \<le> 271 / ?u"
    unfolding A2_def
  proof (rule fl_near [where e = "1352 / 10 / ?u" and M = "1352 / 10"])
    show "\<bar>A1 / 20 - w / 20\<bar> \<le> 1352 / 10 / ?u" using 1 by linarith
    show "\<bar>w / 20\<bar> \<le> 1352 / 10" using sq by linarith
  qed simp
  have 3: "\<bar>A3 - w / 10\<bar> \<le> 813 / ?u"
    unfolding A3_def
  proof (rule fl_near [where e = "542 / ?u" and M = "2704 / 10"])
    show "\<bar>2 * A2 - w / 10\<bar> \<le> 542 / ?u" using 2 by linarith
    show "\<bar>w / 10\<bar> \<le> 2704 / 10" using sq by linarith
  qed simp
  have 4: "\<bar>A4 - (2586 - w / 10)\<bar> \<le> 3400 / ?u"
    unfolding A4_def
  proof (rule fl_near [where e = "813 / ?u" and M = 2586])
    show "\<bar>(2586 - A3) - (2586 - w / 10)\<bar> \<le> 813 / ?u" using 3 by linarith
    show "\<bar>2586 - w / 10\<bar> \<le> 2586" using sq by linarith
  qed simp
  have y5: "(2586 - w / 10) / v = r - v / 10"
    unfolding w_def r_def using v by (simp add: field_simps power2_eq_square)
  have 5: "\<bar>A5 - (r - v / 10)\<bar> \<le> 182 / ?u"
    unfolding A5_def
  proof (rule fl_near [where e = "(3400 / ?u) / 33" and M = "784 / 10"])
    have "\<bar>A4 / v - (2586 - w / 10) / v\<bar> \<le> (3400 / ?u) / 33"
      using 4 lo by (rule quotient_near)
    then show "\<bar>A4 / v - (r - v / 10)\<bar> \<le> (3400 / ?u) / 33" unfolding y5 .
    show "\<bar>r - v / 10\<bar> \<le> 784 / 10" using q lo hi by linarith
  qed simp
  have b: "\<bar>B - v / 10\<bar> \<le> 52 / 10 / ?u"
    unfolding B_def
    by (rule fl_near [where e = 0 and M = "52 / 10"]) (use lo hi in simp_all)
  have 6: "\<bar>A6 - r\<bar> \<le> 266 / ?u"
    unfolding A6_def
  proof (rule fl_near [where e = "1872 / 10 / ?u" and M = "784 / 10"])
    show "\<bar>(A5 + B) - r\<bar> \<le> 1872 / 10 / ?u" using 5 b by linarith
    show "\<bar>r\<bar> \<le> 784 / 10" using q by linarith
  qed simp
  have dd: "\<bar>D - d\<bar> \<le> t / ?u"
    unfolding D_def t_def using fl_err [of d] by simp
  have 7: "\<bar>A7 - (r + d)\<bar> \<le> 345 / ?u + 3 * t / ?u"
    unfolding A7_def
  proof (rule fl_near [where e = "266 / ?u + t / ?u" and M = "784 / 10 + t"])
    show "\<bar>(A6 + D) - (r + d)\<bar> \<le> 266 / ?u + t / ?u" using 6 dd by linarith
    show "\<bar>r + d\<bar> \<le> 784 / 10 + t" using q unfolding t_def by linarith
    show "266 / ?u + t / ?u + (784 / 10 + t + (266 / ?u + t / ?u)) / ?u \<le> 345 / ?u + 3 * t / ?u"
      using t by (simp add: field_simps)
  qed
  have c: "\<bar>C - r\<bar> \<le> 784 / 10 / ?u"
    unfolding C_def r_def [symmetric]
    by (rule fl_near [where e = 0 and M = "784 / 10"]) (use q in simp_all)
  have 8: "\<bar>fl (A7 - C) - d\<bar> \<le> 425 / ?u + 5 * t / ?u"
  proof (rule fl_near [where e = "4234 / 10 / ?u + 3 * t / ?u" and M = t])
    show "\<bar>(A7 - C) - d\<bar> \<le> 4234 / 10 / ?u + 3 * t / ?u" using 7 c by linarith
    show "\<bar>d\<bar> \<le> t" by (simp add: t_def)
    show "4234 / 10 / ?u + 3 * t / ?u + (t + (4234 / 10 / ?u + 3 * t / ?u)) / ?u
          \<le> 425 / ?u + 5 * t / ?u"
      using t by (simp add: field_simps)
  qed
  have "425 / ?u + 5 * t / ?u \<le> 1 / 2 ^ 44 + t / 2 ^ 50" using t by (simp add: field_simps)
  with 8 have "\<bar>fl (A7 - C) - d\<bar> \<le> 1 / 2 ^ 44 + \<bar>d\<bar> / 2 ^ 50" unfolding t_def by linarith
  then show ?thesis
    unfolding A7_def A6_def A5_def A4_def A3_def A2_def A1_def B_def C_def D_def .
qed

section \<open>Properties of the variate functions\<close>

lemma e_lower: "2718281525 / 1000000000 \<le> exp (1::real)"
proof -
  obtain t where t: "\<bar>t\<bar> \<le> \<bar>1::real\<bar>"
    "exp (1::real) = (\<Sum>m<10. (1 ^ m) / fact m) + (exp t / fact 10) * 1 ^ 10"
    using Maclaurin_exp_le [of 1 10] by blast
  have "0 \<le> exp t / fact 10" by simp
  then have "(\<Sum>m<10. (1 ^ m) / fact m) \<le> exp (1::real)" using t(2) by simp
  moreover have "(\<Sum>m<10. (1 ^ m) / fact m) \<ge> (2718281525 / 1000000000 :: real)"
    by (simp add: lessThan_nat_numeral lessThan_Suc fact_numeral)
  ultimately show ?thesis by linarith
qed

lemma e_upper: "exp (1::real) \<le> 2718282353 / 1000000000"
proof -
  obtain t where t: "\<bar>t\<bar> \<le> \<bar>1::real\<bar>"
    "exp (1::real) = (\<Sum>m<10. (1 ^ m) / fact m) + (exp t / fact 10) * 1 ^ 10"
    using Maclaurin_exp_le [of 1 10] by blast
  have "exp t \<le> exp 1" using t(1) by simp
  also have "\<dots> \<le> 3" by (rule exp_le)
  finally have "exp t / fact 10 \<le> 3 / fact 10" by (simp add: divide_right_mono)
  then have "exp (1::real) \<le> (\<Sum>m<10. (1 ^ m) / fact m) + 3 / fact 10" using t(2) by simp
  moreover have "(\<Sum>m<10. (1 ^ m) / fact m) + 3 / fact 10 \<le> (2718282353 / 1000000000 :: real)"
    by (simp add: lessThan_nat_numeral lessThan_Suc fact_numeral)
  ultimately show ?thesis by linarith
qed

lemma ln_near_minus_one:
  "\<bar>ln (1.0 - 0.6321205588 :: real) + 1\<bar> < 1 / 10 ^ 6"
proof -
  define c :: real where "c = 1.0 - 0.6321205588"
  have c: "c = 3678794412 / 10000000000" by (simp add: c_def)
  have cpos: "0 < c" by (simp add: c)
  have eq: "ln c + 1 = ln (c * exp 1)" using cpos by (simp add: ln_mult)
  have lo: "9999998 / 10000000 \<le> c * exp 1"
    using e_lower cpos by (simp add: c)
  have hi: "c * exp 1 \<le> 10000003 / 10000000"
    using e_upper cpos by (simp add: c)
  have pos: "0 < c * exp 1" using cpos by simp
  have up: "ln (c * exp 1) \<le> c * exp 1 - 1" using ln_le_minus_one [OF pos] .
  have "ln (1 / (c * exp 1)) \<le> 1 / (c * exp 1) - 1"
    using pos by (intro ln_le_minus_one) simp
  then have low: "1 - 1 / (c * exp 1) \<le> ln (c * exp 1)"
    using pos cpos by (simp add: ln_div)
  have "1 / (c * exp 1) \<le> 1 / (9999998 / 10000000)"
    using lo by (intro divide_left_mono) (auto intro: mult_pos_pos pos)
  then have "1 - 1 / (c * exp 1) \<ge> - (3 / 10000000)" by simp
  with low up hi have "\<bar>ln (c * exp 1)\<bar> \<le> 3 / 10000000" by linarith
  then have "\<bar>ln c + 1\<bar> < 1 / 1000000" unfolding eq [symmetric] by linarith
  then have "\<bar>ln c + 1\<bar> < 1 / 10 ^ 6" by simp
  then show ?thesis unfolding c_def .
qed

lemma exponential_literal:
  "\<exists>v s. exponential 10 (PyRandom (\<lambda>_. 0.6321205588) 0) = Inr (v, s) \<and> \<bar>v - 10\<bar> < 1 / 10 ^ 5"
proof -
  have "exponential 10 (PyRandom (\<lambda>_. 0.6321205588) 0)
        = Inr (- 10 * ln (1.0 - 0.6321205588), PyRandom (\<lambda>_. 0.6321205588) 1)"
    by (simp add: exponential_def math_log_def)
  moreover have "\<bar>- 10 * ln (1.0 - 0.6321205588 :: real) - 10\<bar> < 1 / 10 ^ 5"
  proof -
    define L :: real where "L = ln (1.0 - 0.6321205588)"
    have "\<bar>L + 1\<bar> < 1 / 1000000" using ln_near_minus_one by (simp add: L_def)
    then have "\<bar>- 10 * L - 10\<bar> < 1 / 100000" by linarith
    then show ?thesis by (simp add: L_def)
  qed
  ultimately show ?thesis by blast
qed

lemma variate_literals:
  "uniform 10 20 (PyRandom (\<lambda>_. 0.5) 0) = Inr (15.0, PyRandom (\<lambda>_. 0.5) 1)"
  "equilikely 1 6 (PyRandom (\<lambda>_. 0.999) 0) = Inr (6, PyRandom (\<lambda>_. 0.999) 1)"
  "bernouli 0.25 (PyRandom (\<lambda>_. 0.80) 0) = Inr (True, PyRandom (\<lambda>_. 0.80) 1)"
  "bernouli 0.25 (PyRandom (\<lambda>_. 0.70) 0) = Inr (False, PyRandom (\<lambda>_. 0.70) 1)"
  by (simp_all add: uniform_def equilikely_def bernouli_def py_int_def)

text \<open>
  Claim C9. For a draw \<open>u\<close> strictly between 0 and 1, \<^verbatim>\<open>bernouli(p)\<close> succeeds exactly
  when \<open>u \<ge> 1 - p\<close>, \<^verbatim>\<open>uniform(a, b)\<close> is \<open>a + (b - a) u\<close>, \<^verbatim>\<open>equilikely(a, b)\<close> on an
  inclusive integer range \<open>a \<le> b\<close> is \<open>a + \<lfloor>(b - a + 1) u\<rfloor>\<close>, and \<^verbatim>\<open>exponential(mean)\<close>
  with a positive mean is \<open>- mean ln (1 - u)\<close>. On the literal inputs:
  \<^verbatim>\<open>uniform(10, 20)\<close> at 0.5 is 15, \<^verbatim>\<open>equilikely(1, 6)\<close> at 0.999 is 6,
  \<^verbatim>\<open>bernouli(0.25)\<close> is true at 0.80 and false at 0.70, and \<^verbatim>\<open>exponential(10)\<close> at
  0.6321205588 is within \<open>10\<^sup>-\<^sup>5\<close> of 10.
\<close>

theorem variate_mappings:
  assumes "draw src = Inr (u, src')" and "0 < u" and "u < 1"
  shows "bernouli p src = Inr (u \<ge> 1 - p, src')
    \<and> uniform a b src = Inr (a + (b - a) * u, src')
    \<and> (ai \<le> bi \<longrightarrow>
         equilikely ai bi src = Inr (ai + \<lfloor>real_of_int (bi - ai + 1) * u\<rfloor>, src'))
    \<and> (0 < m \<longrightarrow> exponential m src = Inr (- m * ln (1 - u), src'))
    \<and> uniform 10 20 (PyRandom (\<lambda>_. 0.5) 0) = Inr (15.0, PyRandom (\<lambda>_. 0.5) 1)
    \<and> equilikely 1 6 (PyRandom (\<lambda>_. 0.999) 0) = Inr (6, PyRandom (\<lambda>_. 0.999) 1)
    \<and> bernouli 0.25 (PyRandom (\<lambda>_. 0.80) 0) = Inr (True, PyRandom (\<lambda>_. 0.80) 1)
    \<and> bernouli 0.25 (PyRandom (\<lambda>_. 0.70) 0) = Inr (False, PyRandom (\<lambda>_. 0.70) 1)
    \<and> (\<exists>v s. exponential 10 (PyRandom (\<lambda>_. 0.6321205588) 0) = Inr (v, s)
           \<and> \<bar>v - 10\<bar> < 1 / 10 ^ 5)"
proof -
  have "bernouli p src = Inr (u \<ge> 1 - p, src')"
    using assms by (simp add: bernouli_def)
  moreover have "uniform a b src = Inr (a + (b - a) * u, src')"
    using assms by (simp add: uniform_def)
  moreover have "ai \<le> bi \<longrightarrow>
      equilikely ai bi src = Inr (ai + \<lfloor>real_of_int (bi - ai + 1) * u\<rfloor>, src')"
    using assms by (simp add: equilikely_def py_int_def)
  moreover have "0 < m \<longrightarrow> exponential m src = Inr (- m * ln (1 - u), src')"
    using assms by (simp add: exponential_def math_log_def)
  ultimately show ?thesis
    using variate_literals exponential_literal by blast
qed

theorem variate_mappings_witness:
  "bernouli (1 / 4) (PyRandom (\<lambda>_. 1 / 2) 0) = Inr (False, PyRandom (\<lambda>_. 1 / 2) 1)
   \<and> uniform 10 20 (PyRandom (\<lambda>_. 1 / 2) 0) = Inr (15, PyRandom (\<lambda>_. 1 / 2) 1)
   \<and> equilikely 1 6 (PyRandom (\<lambda>_. 1 / 2) 0) = Inr (4, PyRandom (\<lambda>_. 1 / 2) 1)
   \<and> exponential 10 (PyRandom (\<lambda>_. 1 / 2) 0)
       = Inr (- 10 * ln (1 - 1 / 2), PyRandom (\<lambda>_. 1 / 2) 1)"
  using variate_mappings [of "PyRandom (\<lambda>_. 1 / 2) 0" "1 / 2" "PyRandom (\<lambda>_. 1 / 2) 1"
      "1 / 4" 10 20 1 6 10]
  by simp




section \<open>Properties of the trace reader\<close>

lemma Token_next_end_of_file:
  "Token_next \<lparr>trace = [], curval = cv, count = n, finished = fin\<rparr>
     = (Inr 0, \<lparr>trace = [], curval = cv, count = n, finished = True\<rparr>)"
  by (simp add: Token_next_def iterate_def)

lemma Token_next_value:
  "Token_next \<lparr>trace = Some v # rest, curval = cv, count = n, finished = False\<rparr>
     = (Inr v, \<lparr>trace = rest, curval = v, count = n + 1, finished = False\<rparr>)"
  by (simp add: Token_next_def iterate_def)

text \<open>
  Claim C7 says that on a malformed line the consuming draw returns 0.0 and no exception
  escapes. The code raises \<^verbatim>\<open>StopIteration\<close> inside the generator \<^verbatim>\<open>iterate\<close>, which
  reaches \<^verbatim>\<open>Token.next\<close> as \<^verbatim>\<open>RuntimeError\<close>; its handler catches \<^verbatim>\<open>StopIteration\<close>
  only. On a token whose next line is malformed, \<^verbatim>\<open>next\<close> and every variate function
  drawing from the token raise \<^verbatim>\<open>RuntimeError\<close>.
\<close>

theorem Token_next_malformed_line_raises:
  "Token_next \<lparr>trace = None # rest, curval = cv, count = n, finished = False\<rparr>
     = (Inl RuntimeError, \<lparr>trace = rest, curval = cv, count = n, finished = True\<rparr>)
   \<and> draw (Tok \<lparr>trace = None # rest, curval = cv, count = n, finished = False\<rparr>)
     = Inl RuntimeError
   \<and> uniform a b (Tok \<lparr>trace = None # rest, curval = cv, count = n, finished = False\<rparr>)
     = Inl RuntimeError
   \<and> bernouli p (Tok \<lparr>trace = None # rest, curval = cv, count = n, finished = False\<rparr>)
     = Inl RuntimeError"
  by (simp add: Token_next_def iterate_def generator_raise_def uniform_def bernouli_def)

section \<open>Properties of the accumulator\<close>

lemma Welford_of_snoc: "Welford_of (xs @ [x]) = Welford_insert x (Welford_of xs)"
  by (simp add: Welford_of_def)

lemma Welford_of_Nil: "Welford_of [] = Welford_init"
  by (simp add: Welford_of_def)

lemma sum_sq_dev:
  "(\<Sum>x\<leftarrow>xs. (x - m) ^ 2)
     = (\<Sum>x\<leftarrow>xs. x ^ 2) - 2 * m * sum_list xs + real (length xs) * m ^ 2"
  by (induction xs) (simp_all add: power2_eq_square algebra_simps)

lemma welford_mean_step:
  "0 < r \<Longrightarrow> S / r + (x - S / r) / (r + 1) = (S + x) / (r + 1)" for r :: real
proof -
  assume r: "0 < r"
  then have r1: "r + 1 \<noteq> 0" "r \<noteq> 0" by simp_all
  show ?thesis using r1 by (simp add: divide_simps) (simp add: algebra_simps)
qed

lemma welford_m2_step:
  "0 < r \<Longrightarrow> Q - S ^ 2 / r + r * (x - S / r) ^ 2 / (r + 1)
     = Q + x ^ 2 - (S + x) ^ 2 / (r + 1)" for r :: real
proof -
  assume r: "0 < r"
  then have r1: "r + 1 \<noteq> 0" "r \<noteq> 0" by simp_all
  show ?thesis using r1 by (simp add: divide_simps power2_eq_square) (simp add: algebra_simps)
qed

lemma Welford_invariant:
  "i (Welford_of xs) = length xs \<and>
   avg (Welford_of xs) = sum_list xs / real (length xs) \<and>
   var (Welford_of xs) = (\<Sum>x\<leftarrow>xs. x ^ 2) - (sum_list xs) ^ 2 / real (length xs)"
proof (induction xs rule: rev_induct)
  case Nil
  show ?case by (simp add: Welford_of_Nil Welford_init_def)
next
  case (snoc x xs)
  define n where "n = length xs"
  define S where "S = sum_list xs"
  define Q where "Q = (\<Sum>x\<leftarrow>xs. x ^ 2)"
  from snoc have iw: "i (Welford_of xs) = n" and aw: "avg (Welford_of xs) = S / real n"
    and vw: "var (Welford_of xs) = Q - S ^ 2 / real n"
    by (simp_all add: n_def S_def Q_def)
  show ?case
  proof (cases "n = 0")
    case True
    then have "xs = []" by (simp add: n_def)
    then show ?thesis
      by (simp add: Welford_of_def Welford_init_def Welford_insert_def Let_def)
  next
    case False
    then have npos: "0 < real n" by simp
    have a: "S / real n + (x - S / real n) / (real n + 1) = (S + x) / (real n + 1)"
      using npos by (rule welford_mean_step)
    have v: "Q - S ^ 2 / real n + real n * (x - S / real n) ^ 2 / (real n + 1)
             = Q + x ^ 2 - (S + x) ^ 2 / (real n + 1)"
      using npos by (rule welford_m2_step)
    show ?thesis
      using a v
      by (simp add: Welford_of_snoc Welford_insert_def Let_def iw aw vw
          n_def [symmetric] S_def [symmetric] Q_def [symmetric] add.commute)
  qed
qed

lemma Welford_mean: "xs \<noteq> [] \<Longrightarrow> mean (Welford_of xs) = sample_mean xs"
  by (simp add: mean_def sample_mean_def Welford_invariant)

lemma Welford_variance: "variance (Welford_of xs) = population_variance xs"
proof (cases "xs = []")
  case True
  then show ?thesis
    by (simp add: variance_def population_variance_def Welford_of_Nil Welford_init_def)
next
  case False
  then have n: "0 < real (length xs)" by simp
  have "(\<Sum>x\<leftarrow>xs. (x - sample_mean xs) ^ 2)
        = (\<Sum>x\<leftarrow>xs. x ^ 2) - (sum_list xs) ^ 2 / real (length xs)"
    unfolding sum_sq_dev sample_mean_def using n
    by (simp add: field_simps power2_eq_square)
  then show ?thesis
    using False by (simp add: variance_def population_variance_def Welford_invariant)
qed

text \<open>
  Claim C5. Inserting a sample \<open>x\<close> follows the recurrence \<open>n \<leftarrow> n + 1\<close>,
  \<open>mean \<leftarrow> mean + (x - mean) / n\<close>, \<open>M2 \<leftarrow> M2 + (n - 1) (x - mean)\<^sup>2 / n\<close> with the old mean
  and the new \<open>n\<close>; \<^verbatim>\<open>variance()\<close> is \<open>M2 / n\<close> for \<open>n > 0\<close> and 0 otherwise. After any
  finite sequence of samples the counter is their number, the reported mean is their
  arithmetic mean and the reported variance their population variance; the variance
  is 0 after no sample and after one sample.
\<close>

theorem Welford_streaming_correct:
  "i (Welford_insert x w) = i w + 1
   \<and> avg (Welford_insert x w) = avg w + (x - avg w) / real (i w + 1)
   \<and> var (Welford_insert x w) = var w + real (i w) * (x - avg w) ^ 2 / real (i w + 1)
   \<and> variance w = (if i w > 0 then var w / real (i w) else 0)
   \<and> i (Welford_of xs) = length xs
   \<and> (xs \<noteq> [] \<longrightarrow> mean (Welford_of xs) = sample_mean xs)
   \<and> variance (Welford_of xs) = population_variance xs
   \<and> variance (Welford_of []) = 0
   \<and> variance (Welford_of [x]) = 0"
proof -
  have "variance (Welford_of [x]) = 0"
    by (simp add: Welford_variance population_variance_def sample_mean_def)
  moreover have "variance (Welford_of []) = 0"
    by (simp add: Welford_variance population_variance_def)
  moreover have "i (Welford_insert x w) = i w + 1
      \<and> avg (Welford_insert x w) = avg w + (x - avg w) / real (i w + 1)
      \<and> var (Welford_insert x w) = var w + real (i w) * (x - avg w) ^ 2 / real (i w + 1)"
    by (simp add: Welford_insert_def Let_def)
  moreover have "variance w = (if i w > 0 then var w / real (i w) else 0)"
    by (simp add: variance_def)
  ultimately show ?thesis
    using Welford_mean [of xs] Welford_variance [of xs] Welford_invariant [of xs] by simp
qed

theorem Welford_streaming_correct_witness:
  "mean (Welford_of [1, 2, 3, 4]) = sample_mean [1, 2, 3, 4]
   \<and> sample_mean [1, 2, 3, 4] = 5 / 2
   \<and> variance (Welford_of [1, 2, 3, 4]) = 5 / 4
   \<and> i (Welford_of [1, 2, 3, 4]) = 4"
  using Welford_streaming_correct [of 0 Welford_init "[1, 2, 3, 4]"]
  by (simp add: sample_mean_def population_variance_def power2_eq_square)

section \<open>Properties of the pedestrian manager\<close>

lemma split_first_None: "(\<And>x. x \<in> set xs \<Longrightarrow> \<not> P x) \<Longrightarrow> split_first P xs = None"
  by (induction xs) auto

lemma deploy_loop_spec:
  assumes "distinct (map id_ped ws)"
    and "id_ped ` set ws \<inter> id_ped ` set (walking (peds s)) = {}"
    and "waiting (peds s) = ws"
    and "count_pm (peds s) = int k"
    and "k \<le> 20"
    and "r \<le> length ws"
  shows "deploy_loop r k s =
     Inr (s\<lparr>peds := (peds s)\<lparr>waiting := drop (if r \<le> 20 - k then r else 21 - k) ws,
                               count_pm := int (k + min r (20 - k))\<rparr>,
            peddelay := foldl (\<lambda>w p. Welford_insert (time s - at_ped p - atlight p) w)
                          (peddelay s) (take (min r (20 - k)) ws),
            log_sim := log_sim s
                         @ map (\<lambda>p. PedCrossed (id_ped p) (time s - at_ped p - atlight p))
                             (take (min r (20 - k)) ws)\<rparr>)"
  using assms
proof (induction r arbitrary: k s ws)
  case 0
  then show ?case by simp
next
  case (Suc r)
  from Suc.prems obtain p rest where ws: "ws = p # rest" by (cases ws) auto
  have idx: "py_index (waiting (peds s)) (int k - count_pm (peds s)) = Inr p"
    using Suc.prems ws by (simp add: py_index_def)
  have nowalk: "split_first (\<lambda>ped. id_ped ped = id_ped p) (walking (peds s)) = None"
    using Suc.prems(2) ws by (intro split_first_None) (auto simp: image_iff)
  have gp: "snd (PedManager_getped (id_ped p) True (peds s)) = (peds s)\<lparr>waiting := rest\<rparr>"
    using Suc.prems(3) ws nowalk by (simp add: PedManager_getped_def)
  show ?case
  proof (cases "k < 20")
    case True
    let ?s2 = "add_log (PedCrossed (id_ped p) (time s - at_ped p - atlight p))
                 (s\<lparr>peds := (peds s)\<lparr>waiting := rest, count_pm := int k + 1\<rparr>,
                    peddelay := Welford_insert (time s - at_ped p - atlight p) (peddelay s)\<rparr>)"
    have cr: "PedManager_cross p (s\<lparr>peds := (peds s)\<lparr>waiting := rest\<rparr>\<rparr>) = Inr ?s2"
      using True Suc.prems(4) by (simp add: PedManager_cross_def MAXPEDS_def Let_def)
    have step: "deploy_loop (Suc r) k s = deploy_loop r (Suc k) ?s2"
      by (simp add: idx gp cr Let_def)
    have IH: "deploy_loop r (Suc k) ?s2 =
      Inr (?s2\<lparr>peds := (peds ?s2)
                  \<lparr>waiting := drop (if r \<le> 20 - Suc k then r else 21 - Suc k) rest,
                   count_pm := int (Suc k + min r (20 - Suc k))\<rparr>,
             peddelay := foldl (\<lambda>w p. Welford_insert (time ?s2 - at_ped p - atlight p) w)
                           (peddelay ?s2) (take (min r (20 - Suc k)) rest),
             log_sim := log_sim ?s2
                          @ map (\<lambda>p. PedCrossed (id_ped p) (time ?s2 - at_ped p - atlight p))
                              (take (min r (20 - Suc k)) rest)\<rparr>)"
      using Suc.prems True ws
      by (intro Suc.IH) (auto simp: add_log_def)
    have m: "min (Suc r) (20 - k) = Suc (min r (20 - Suc k))" using True by auto
    have d: "21 - k = Suc (20 - k)" using True by simp
    show ?thesis
      unfolding step IH m using True ws
      by (auto simp: add_log_def d)
  next
    case False
    with Suc.prems have k: "k = 20" by simp
    have cr: "PedManager_cross p (s\<lparr>peds := (peds s)\<lparr>waiting := rest\<rparr>\<rparr>) = Inl StopIteration"
      using k Suc.prems(4) by (simp add: PedManager_cross_def MAXPEDS_def)
    have "deploy_loop (Suc r) k s = Inr (s\<lparr>peds := (peds s)\<lparr>waiting := rest\<rparr>\<rparr>)"
      by (simp add: idx gp cr Let_def)
    moreover have "(peds s)\<lparr>waiting := rest\<rparr> = (peds s)\<lparr>waiting := rest, count_pm := 20\<rparr>"
      using k Suc.prems(4) by simp
    ultimately show ?thesis
      using k ws by simp
  qed
qed

text \<open>
  What \<^verbatim>\<open>deploy\<close> does to a waiting queue of pedestrians with distinct identifiers,
  none of them still walking: the first 20 cross in queue order, the 21st is removed as
  well but does not cross, and the pedestrians from the 22nd on stay queued in order.
\<close>

lemma deploy_spec:
  assumes "distinct (map id_ped (waiting (peds s)))"
    and "id_ped ` set (waiting (peds s)) \<inter> id_ped ` set (walking (peds s)) = {}"
  shows "PedManager_deploy s =
     Inr (s\<lparr>peds := (peds s)\<lparr>waiting := drop 21 (waiting (peds s)),
                               count_pm := int (min (length (waiting (peds s))) 20)\<rparr>,
            peddelay := foldl (\<lambda>w p. Welford_insert (time s - at_ped p - atlight p) w)
                          (peddelay s) (take 20 (waiting (peds s))),
            log_sim := log_sim s
                         @ map (\<lambda>p. PedCrossed (id_ped p) (time s - at_ped p - atlight p))
                             (take 20 (waiting (peds s)))\<rparr>)"
proof -
  let ?ws = "waiting (peds s)"
  let ?s = "s\<lparr>peds := (peds s)\<lparr>count_pm := 0\<rparr>\<rparr>"
  have "deploy_loop (length ?ws) 0 ?s =
    Inr (?s\<lparr>peds := (peds ?s)
               \<lparr>waiting := drop (if length ?ws \<le> 20 - 0 then length ?ws else 21 - 0) ?ws,
                count_pm := int (0 + min (length ?ws) (20 - 0))\<rparr>,
           peddelay := foldl (\<lambda>w p. Welford_insert (time ?s - at_ped p - atlight p) w)
                         (peddelay ?s) (take (min (length ?ws) (20 - 0)) ?ws),
           log_sim := log_sim ?s
                        @ map (\<lambda>p. PedCrossed (id_ped p) (time ?s - at_ped p - atlight p))
                            (take (min (length ?ws) (20 - 0)) ?ws)\<rparr>)"
    using assms by (intro deploy_loop_spec) auto
  then show ?thesis
    by (auto simp: PedManager_deploy_def min_def)
qed

text \<open>
  Claim C1 says that every pedestrian beyond the capacity \<^verbatim>\<open>MAXPEDS\<close> stays in the
  waiting queue for the next red phase. With 21 pedestrians waiting (identifiers 1 to
  21, whatever the counter was), \<^verbatim>\<open>deploy\<close> lets the first 20 cross and leaves the
  queue empty: the 21st has been removed by \<^verbatim>\<open>getped\<close> before \<^verbatim>\<open>cross\<close> refused it, and
  no delay is recorded for it.
\<close>

theorem deploy_drops_pedestrian:
  "PedManager_deploy
     (s\<lparr>peds := \<lparr>walking = [],
                  waiting = map (\<lambda>k. \<lparr>id_ped = int k, at_ped = 0, speed_ped = 3,
                                      atlight = 100, walktime = 15\<rparr>) [1..<22],
                  count_pm = c\<rparr>\<rparr>)
   = Inr (s\<lparr>peds := \<lparr>walking = [], waiting = [], count_pm = 20\<rparr>,
           peddelay := foldl (\<lambda>w p. Welford_insert (time s - at_ped p - atlight p) w)
              (peddelay s)
              (map (\<lambda>k. \<lparr>id_ped = int k, at_ped = 0, speed_ped = 3,
                            atlight = 100, walktime = 15\<rparr>) [1..<21]),
           log_sim := log_sim s @ map (\<lambda>k. PedCrossed (int k) (time s - 0 - 100)) [1..<21]\<rparr>)"
proof -
  let ?P = "\<lambda>k. \<lparr>id_ped = int k, at_ped = 0, speed_ped = 3, atlight = 100, walktime = 15\<rparr>"
  let ?s = "s\<lparr>peds := \<lparr>walking = [], waiting = map ?P [1..<22], count_pm = c\<rparr>\<rparr>"
  have d: "distinct (map id_ped (waiting (peds ?s)))"
    by (simp add: distinct_map inj_on_def comp_def)
  have w: "id_ped ` set (waiting (peds ?s)) \<inter> id_ped ` set (walking (peds ?s)) = {}"
    by simp
  have t: "take 20 (map ?P [Suc 0..<22]) = map ?P [Suc 0..<21]"
    by (simp add: take_map take_upt)
  show ?thesis
    unfolding deploy_spec [OF d w] by (simp add: t drop_map comp_def)
qed

section \<open>Properties of the car manager\<close>

lemma Car_init_built:
  "Car_init ident at_time atoken = Inr (car, atoken') \<Longrightarrow> speed car \<noteq> 0 \<Longrightarrow> car_built car"
  by (auto simp: Car_init_def car_built_def split: sum.splits)

lemma lightchange_green_spec:
  assumes "\<forall>car \<in> set (stopped (cars s)). speed car \<noteq> 0"
    and "n \<le> length (stopped (cars s))"
  shows "lightchange_green n s =
     Inr (s\<lparr>cars := (cars s)
                \<lparr>stopped := take (length (stopped (cars s)) - n) (stopped (cars s))\<rparr>,
            cardelay := foldl (\<lambda>w car. Welford_insert (release_delay (total (cars s)) (time s) car) w)
                          (cardelay s) (take n (rev (stopped (cars s)))),
            log_sim := log_sim s
                         @ map (\<lambda>car. CarLeft (id_car car)
                                  (release_time (total (cars s)) (time s) car)
                                  (release_delay (total (cars s)) (time s) car))
                             (take n (rev (stopped (cars s))))\<rparr>)"
  using assms
proof (induction n arbitrary: s)
  case 0
  then show ?case by simp
next
  case (Suc n)
  let ?cs = "stopped (cars s)"
  from Suc.prems have ne: "?cs \<noteq> []" by auto
  then obtain cs car where cs: "?cs = cs @ [car]" by (metis rev_exhaust)
  have v: "speed car \<noteq> 0" using Suc.prems(1) cs by simp
  let ?d = "release_delay (total (cars s)) (time s) car"
  let ?t = "release_time (total (cars s)) (time s) car"
  let ?s2 = "add_log (CarLeft (id_car car) ?t ?d)
               (s\<lparr>cars := (cars s)\<lparr>stopped := cs\<rparr>,
                  cardelay := Welford_insert ?d (cardelay s)\<rparr>)"
  have step: "lightchange_green (Suc n) s = lightchange_green n ?s2"
    using v cs by (simp add: py_div_def Let_def release_delay_def release_time_def)
  have IH: "lightchange_green n ?s2 =
    Inr (?s2\<lparr>cars := (cars ?s2)
                \<lparr>stopped := take (length (stopped (cars ?s2)) - n) (stopped (cars ?s2))\<rparr>,
           cardelay := foldl (\<lambda>w car. Welford_insert
                                 (release_delay (total (cars ?s2)) (time ?s2) car) w)
                         (cardelay ?s2) (take n (rev (stopped (cars ?s2)))),
           log_sim := log_sim ?s2
                        @ map (\<lambda>car. CarLeft (id_car car)
                                 (release_time (total (cars ?s2)) (time ?s2) car)
                                 (release_delay (total (cars ?s2)) (time ?s2) car))
                            (take n (rev (stopped (cars ?s2))))\<rparr>)"
    using Suc.prems cs by (intro Suc.IH) (auto simp: add_log_def)
  show ?case
    unfolding step IH using cs by (simp add: add_log_def)
qed

lemma release_delay_error:
  assumes "car_built car" and "33 \<le> speed car" and "speed car \<le> 52"
  shows "\<bar>release_delay 2586 now car - (now - stoptime car)\<bar>
         \<le> 1 / 2 ^ 44 + \<bar>now - stoptime car\<bar> / 2 ^ 50"
  using delay_error [OF assms(2,3), of "now - stoptime car"] assms(1)
  by (simp add: release_delay_def release_time_def car_built_def CARACC_def)




lemma lightchange_yellow_marks_all:
  assumes "\<forall>car \<in> set cs. 0 < speed car" and "bef \<le> aft"
  shows "lightchange_yellow t bef aft cs
           = Inr (map (\<lambda>car. car\<lparr>shouldstop := True\<rparr>) cs, map (\<lambda>car. CarShouldStop (id_car car)) cs)"
  using assms(1)
proof (induction cs)
  case Nil
  show ?case by simp
next
  case (Cons car cs)
  then have v: "0 < speed car" by simp
  have "(t + YELLOWTIMEOUT - atime car) / speed car
          < (t + YELLOWTIMEOUT + REDTIMEOUT - atime car) / speed car"
    using v by (simp add: divide_strict_right_mono REDTIMEOUT_def)
  then have "(t + YELLOWTIMEOUT - atime car) / speed car < aft
             \<or> (t + YELLOWTIMEOUT + REDTIMEOUT - atime car) / speed car > bef"
    using assms(2) by linarith
  then show ?case
    using Cons v by (simp add: posa_def posb_def py_div_def)
qed

text \<open>
  Claim C4 says that the two values computed for a driving car at the change to yellow
  are its projected positions, the distance travelled being the speed times the time
  since its spawn. The code divides the elapsed time by the speed. For a car spawned at
  time 0 with speed 40 and the light turning yellow at time 2, \<^verbatim>\<open>posa\<close> is \<open>1/4\<close> and
  \<^verbatim>\<open>posb\<close> is \<open>7/10\<close>, where the projected positions are 400 and 1120.
\<close>

theorem lightchange_divides_time_by_speed:
  "posa 2 \<lparr>id_car = 1, atime = 0, speed = 40, brakedist = 80, braketime = 4,
            shouldstop = False, stoptime = - 1\<rparr> = Inr (1 / 4)
   \<and> posb 2 \<lparr>id_car = 1, atime = 0, speed = 40, brakedist = 80, braketime = 4,
              shouldstop = False, stoptime = - 1\<rparr> = Inr (7 / 10)
   \<and> 40 * (2 + YELLOWTIMEOUT - 0) = 400
   \<and> 40 * (2 + YELLOWTIMEOUT + REDTIMEOUT - 0) = 1120"
  by (simp add: posa_def posb_def py_div_def YELLOWTIMEOUT_def REDTIMEOUT_def)

section \<open>Properties of the light\<close>

lemma to_yellow_no_cars:
  "driving (cars s) = [] \<Longrightarrow>
   to_yellow s =
     Inr (s\<lparr>light := (light s)\<lparr>state := YELLOW\<rparr>,
            log_sim := log_sim s @ [LightChanged YELLOW],
            queue := queue s
              @ [\<lparr>at_ev = time s + YELLOWTIMEOUT, type_ev = TimerExpire, id_ev = - 1\<rparr>],
            totalevents := totalevents s + 1\<rparr>)"
  by (simp add: to_yellow_def CarManager_lightchange_def add_log_def Simulation_insert_def
      heappush_def Let_def)

text \<open>
  With the global name \<^verbatim>\<open>sim\<close> bound to the simulation that owns the light, as in the
  script's own run, the expiry of the yellow timer sets the state to red and the
  walk-expiry deadline to the clock plus \<^verbatim>\<open>REDTIMEOUT\<close>, calls \<^verbatim>\<open>deploy\<close> once and
  inserts one timer event \<^verbatim>\<open>REDTIMEOUT\<close> ahead.
\<close>

lemma Light_timer_yellow_owner:
  "state (light s) = YELLOW \<Longrightarrow>
   Light_timer Owner s =
     (case PedManager_deploy
             (s\<lparr>log_sim := log_sim s @ [LightChanged RED],
                light := (light s)\<lparr>state := RED, walkexpire := time s + REDTIMEOUT\<rparr>\<rparr>) of
        Inl e \<Rightarrow> Inl e
      | Inr s2 \<Rightarrow> Inr (Simulation_insert REDTIMEOUT TimerExpire (- 1) s2))"
  by (simp add: Light_timer_def Let_def add_log_def)

text \<open>
  Claim C2 is stated for a light owned by any simulation context. \<^verbatim>\<open>press()\<close> on a
  green light (no car driving) gives yellow and appends exactly one timer event at the
  clock plus \<^verbatim>\<open>YELLOWTIMEOUT\<close>. When the global name \<^verbatim>\<open>sim\<close> is not bound, as for a
  simulation created by any caller other than the script itself, dispatching that timer
  event raises \<^verbatim>\<open>NameError\<close>: the walk-expiry deadline is not set, \<^verbatim>\<open>deploy\<close> is not
  called and no red timer is scheduled.
\<close>

theorem press_then_timer_raises_NameError:
  "Light_press (s\<lparr>light := \<lparr>state = GREEN, walkexpire = w\<rparr>,
                  cars := (cars s)\<lparr>driving := []\<rparr>\<rparr>)
     = Inr (s\<lparr>light := \<lparr>state = YELLOW, walkexpire = w\<rparr>,
              cars := (cars s)\<lparr>driving := []\<rparr>,
              log_sim := log_sim s @ [LightChanged YELLOW],
              queue := queue s
                @ [\<lparr>at_ev = time s + YELLOWTIMEOUT, type_ev = TimerExpire, id_ev = - 1\<rparr>],
              totalevents := totalevents s + 1\<rparr>)
   \<and> Simulation_next Unbound
        \<lparr>at_ev = time s + YELLOWTIMEOUT, type_ev = TimerExpire, id_ev = - 1\<rparr>
        (s\<lparr>light := \<lparr>state = YELLOW, walkexpire = w\<rparr>,
           cars := (cars s)\<lparr>driving := []\<rparr>,
           log_sim := log_sim s @ [LightChanged YELLOW],
           queue := queue s
             @ [\<lparr>at_ev = time s + YELLOWTIMEOUT, type_ev = TimerExpire, id_ev = - 1\<rparr>],
           totalevents := totalevents s + 1\<rparr>)
     = Inl NameError
   \<and> Light_timer Unbound (s\<lparr>light := \<lparr>state = YELLOW, walkexpire = w\<rparr>\<rparr>) = Inl NameError"
  by (simp add: Light_press_def to_yellow_no_cars Simulation_next_def Light_timer_def Let_def
      add_log_def)

section \<open>The clock\<close>

lemma good_draw:
  assumes "good_source src"
  obtains u src' where "draw src = Inr (u, src')" "0 \<le> u" "u < 1" "good_source src'"
proof (cases src)
  case (PyRandom f n)
  with assms show ?thesis by (intro that [of "f n" "PyRandom f (Suc n)"]) auto
next
  case (Tok t)
  show ?thesis
  proof (cases "finished t \<or> trace t = []")
    case True
    then have "draw src = Inr (0, Tok (if finished t then t else t\<lparr>finished := True\<rparr>))"
      using Tok by (auto simp: Token_next_def iterate_def)
    moreover have "good_source (Tok (if finished t then t else t\<lparr>finished := True\<rparr>))"
      using assms Tok by auto
    ultimately show ?thesis by (intro that) auto
  next
    case False
    then obtain l rest where tr: "trace t = l # rest" by (cases "trace t") auto
    with assms Tok obtain v where v: "l = Some v" "0 \<le> v" "v < 1" by auto
    have "draw src = Inr (v, Tok (t\<lparr>trace := rest, curval := v, count := count t + 1\<rparr>))"
      using Tok False tr v by (simp add: Token_next_def iterate_def)
    moreover have "good_source (Tok (t\<lparr>trace := rest, curval := v, count := count t + 1\<rparr>))"
      using assms Tok tr by auto
    ultimately show ?thesis using v by (intro that) auto
  qed
qed

lemma schedules_ahead_refl: "schedules_ahead s s"
  by (simp add: schedules_ahead_def)

lemma schedules_ahead_trans:
  "schedules_ahead s s1 \<Longrightarrow> schedules_ahead s1 s2 \<Longrightarrow> schedules_ahead s s2"
  by (auto simp: schedules_ahead_def)

lemma schedules_ahead_insert:
  "0 \<le> d \<Longrightarrow> schedules_ahead s (Simulation_insert d ty ident s)"
  by (simp add: schedules_ahead_def Simulation_insert_def heappush_def)

lemma exponential_good:
  assumes "good_source src" "0 < l"
  obtains d src' where "exponential l src = Inr (d, src')" "0 \<le> d" "good_source src'"
proof -
  from assms(1) obtain u src' where u: "draw src = Inr (u, src')" "0 \<le> u" "u < 1" "good_source src'"
    by (rule good_draw)
  have "ln (1 - u) \<le> 0" using u by (simp add: ln_le_zero_iff)
  then have nn: "0 \<le> - l * ln (1 - u)" using assms(2) by (simp add: mult_le_0_iff)
  have ex: "exponential l src = Inr (- l * ln (1 - u), src')"
    using u assms(2) by (simp add: exponential_def math_log_def)
  show ?thesis using ex nn u(4) by (rule that)
qed

lemma uniform_good:
  assumes "good_source src" "a \<le> b"
  obtains x src' where "uniform a b src = Inr (x, src')" "a \<le> x" "x \<le> b" "good_source src'"
proof -
  from assms(1) obtain u src' where u: "draw src = Inr (u, src')" "0 \<le> u" "u < 1" "good_source src'"
    by (rule good_draw)
  have "0 \<le> (b - a) * u" using u assms(2) by simp
  moreover have "(b - a) * u \<le> (b - a) * 1" using u assms(2) by (intro mult_left_mono) auto
  moreover have "uniform a b src = Inr (a + (b - a) * u, src')" using u by (simp add: uniform_def)
  ultimately show ?thesis using u(4) by (intro that [of "a + (b - a) * u" src']) auto
qed

lemma same_frame_refl: "same_frame s s"
  by (simp add: same_frame_def)

lemma same_frame_trans: "same_frame s s1 \<Longrightarrow> same_frame s1 s2 \<Longrightarrow> same_frame s s2"
  by (simp add: same_frame_def)

lemma same_frame_valid: "same_frame s s' \<Longrightarrow> valid_config s \<Longrightarrow> valid_config s'"
  by (simp add: same_frame_def valid_config_def)

lemma same_frame_ahead: "same_frame s s' \<Longrightarrow> schedules_ahead s s'"
  by (simp add: same_frame_def schedules_ahead_def)

lemma frame_lightchange_green: "lightchange_green n s = Inr s' \<Longrightarrow> same_frame s s'"
proof (induction n arbitrary: s)
  case 0
  then show ?case by (simp add: same_frame_def)
next
  case (Suc n)
  from Suc.prems obtain s1 where s1: "lightchange_green n s1 = Inr s'" "same_frame s s1"
    by (auto simp: Let_def add_log_def same_frame_def split: if_splits sum.splits)
  from Suc.IH [OF s1(1)] s1(2) show ?case by (rule same_frame_trans [rotated])
qed

lemma frame_cross: "PedManager_cross ped s = Inr s' \<Longrightarrow> same_frame s s'"
  by (auto simp: PedManager_cross_def Let_def add_log_def same_frame_def split: if_splits)

lemma frame_deploy_loop: "deploy_loop r k s = Inr s' \<Longrightarrow> same_frame s s'"
proof (induction r arbitrary: k s)
  case 0
  then show ?case by (simp add: same_frame_def)
next
  case (Suc r)
  let ?s1 = "\<lambda>ped. s\<lparr>peds := snd (PedManager_getped (id_ped ped) True (peds s))\<rparr>"
  have f1: "same_frame s (?s1 ped)" for ped by (simp add: same_frame_def)
  from Suc.prems obtain ped where ped: "py_index (waiting (peds s)) (int k - count_pm (peds s)) = Inr ped"
    by (auto split: sum.splits)
  show ?case
  proof (cases "PedManager_cross ped (?s1 ped)")
    case (Inl e)
    with Suc.prems ped have "s' = ?s1 ped" by (auto simp: Let_def split: if_splits)
    then show ?thesis using f1 by simp
  next
    case (Inr s2)
    with Suc.prems ped have "deploy_loop r (Suc k) s2 = Inr s'" by (simp add: Let_def)
    then have "same_frame s2 s'" by (rule Suc.IH)
    with frame_cross [OF Inr] f1 show ?thesis by (blast intro: same_frame_trans)
  qed
qed

lemma frame_deploy: "PedManager_deploy s = Inr s' \<Longrightarrow> same_frame s s'"
  unfolding PedManager_deploy_def
  by (drule frame_deploy_loop) (simp add: same_frame_def)

lemma frame_lightchange: "CarManager_lightchange st s = Inr s' \<Longrightarrow> same_frame s s'"
  unfolding CarManager_lightchange_def
  by (auto simp: same_frame_def dest: frame_lightchange_green split: if_splits sum.splits)

lemma ahead_to_yellow:
  assumes "to_yellow s = Inr s'"
  shows "schedules_ahead s s'" and "valid_config s \<Longrightarrow> valid_config s'"
proof -
  from assms obtain s2 where s2: "same_frame s s2" "s' = Simulation_insert YELLOWTIMEOUT TimerExpire (- 1) s2"
    by (auto simp: to_yellow_def Let_def add_log_def same_frame_def
        dest!: frame_lightchange split: sum.splits)
  show "schedules_ahead s s'"
    using s2 by (auto simp: schedules_ahead_def same_frame_def Simulation_insert_def heappush_def YELLOWTIMEOUT_def)
  show "valid_config s \<Longrightarrow> valid_config s'"
    using s2 by (auto simp: valid_config_def same_frame_def Simulation_insert_def)
qed

lemma ahead_Light_press:
  assumes "Light_press s = Inr s'"
  shows "schedules_ahead s s'" and "valid_config s \<Longrightarrow> valid_config s'"
  using assms ahead_to_yellow [of s s']
  by (auto simp: Light_press_def schedules_ahead_def valid_config_def split: if_splits)

lemma ahead_Light_timer:
  assumes "Light_timer g s = Inr s'"
  shows "schedules_ahead s s'" and "valid_config s \<Longrightarrow> valid_config s'"
proof -
  consider (gwp) "state (light s) = GREENWAITPRESSED" | (gw) "state (light s) = GREENWAIT"
    | (g) "state (light s) = GREEN" | (y) "state (light s) = YELLOW" | (r) "state (light s) = RED"
    by (cases "state (light s)") auto
  then have "schedules_ahead s s' \<and> (valid_config s \<longrightarrow> valid_config s')"
  proof cases
    case gwp
    with assms ahead_to_yellow [of s s'] show ?thesis by (simp add: Light_timer_def)
  next
    case gw
    with assms show ?thesis
      by (auto simp: Light_timer_def schedules_ahead_def valid_config_def)
  next
    case g
    with assms show ?thesis
      by (auto simp: Light_timer_def schedules_ahead_def valid_config_def)
  next
    case y
    with assms obtain s2 where s2: "same_frame s s2" "s' = Simulation_insert REDTIMEOUT TimerExpire (- 1) s2"
      by (auto simp: Light_timer_def Let_def add_log_def same_frame_def
          dest!: frame_deploy split: sum.splits global_sim.splits)
    then show ?thesis
      by (auto simp: schedules_ahead_def valid_config_def same_frame_def Simulation_insert_def heappush_def REDTIMEOUT_def)
  next
    case r
    with assms obtain s2 where s2: "same_frame s s2" "s' = Simulation_insert GREENTIMEOUT TimerExpire (- 1) s2"
      by (auto simp: Light_timer_def Let_def add_log_def same_frame_def
          dest!: frame_lightchange split: sum.splits)
    then show ?thesis
      by (auto simp: schedules_ahead_def valid_config_def same_frame_def Simulation_insert_def heappush_def GREENTIMEOUT_def)
  qed
  then show "schedules_ahead s s'" and "valid_config s \<Longrightarrow> valid_config s'" by auto
qed

lemma bernouli_good:
  assumes "good_source src"
  obtains r src' where "bernouli p src = Inr (r, src')" "good_source src'"
proof -
  from assms obtain u src' where "draw src = Inr (u, src')" "good_source src'"
    by (rule good_draw)
  then show ?thesis by (intro that [of "u \<ge> 1 - p" src']) (simp_all add: bernouli_def)
qed

lemma bernouli_keeps_good:
  "good_source src \<Longrightarrow> bernouli p src = Inr (r, src') \<Longrightarrow> good_source src'"
  by (erule good_draw) (auto simp: bernouli_def)

lemma exponential_keeps_good:
  "good_source src \<Longrightarrow> 0 < l \<Longrightarrow> exponential l src = Inr (d, src') \<Longrightarrow> 0 \<le> d \<and> good_source src'"
  by (erule exponential_good) auto

lemma uniform_keeps_good:
  "good_source src \<Longrightarrow> a \<le> b \<Longrightarrow> uniform a b src = Inr (x, src')
     \<Longrightarrow> a \<le> x \<and> x \<le> b \<and> good_source src'"
  by (erule uniform_good) auto

lemma ahead_press:
  assumes "PedManager_press n ident s = Inr s'" and "valid_config s"
  shows "schedules_ahead s s' \<and> valid_config s'"
proof -
  from assms obtain r b' where b: "bernouli (if n = 0 then 15 / 16 else 1 / (real_of_int n + 1)) (buttonrandom s) = Inr (r, b')"
    by (auto simp: PedManager_press_def split: sum.splits)
  have g: "good_source b'" using assms(2) b by (auto simp: valid_config_def dest: bernouli_keeps_good)
  let ?s1 = "s\<lparr>buttonrandom := b'\<rparr>"
  have v1: "valid_config ?s1" "schedules_ahead s ?s1"
    using assms(2) g by (simp_all add: valid_config_def schedules_ahead_def)
  show ?thesis
  proof (cases r)
    case True
    with assms b have lp: "Light_press (add_log (PedPressed ident) ?s1) = Inr s'"
      by (simp add: PedManager_press_def)
    have "valid_config (add_log (PedPressed ident) ?s1)" "schedules_ahead s (add_log (PedPressed ident) ?s1)"
      using v1 by (simp_all add: valid_config_def schedules_ahead_def add_log_def)
    with ahead_Light_press [OF lp] show ?thesis by (blast intro: schedules_ahead_trans)
  next
    case False
    with assms b have "s' = ?s1" by (simp add: PedManager_press_def)
    with v1 show ?thesis by simp
  qed
qed

lemma ahead_enqueue:
  assumes "enqueue ped ident s = Inr s'" and "valid_config s"
  shows "schedules_ahead s s' \<and> valid_config s'"
proof -
  from assms obtain s1 where s1: "PedManager_press (int (length (waiting (peds s)))) ident s = Inr s1"
    and s': "s' = Simulation_insert 60.0 PedImpatient ident
                 (add_log (PedWaiting ident)
                    (s1\<lparr>peds := (peds s1)\<lparr>waiting := waiting (peds s1) @ [ped]\<rparr>\<rparr>))"
    by (auto simp: enqueue_def split: sum.splits)
  from ahead_press [OF s1 assms(2)] have a: "schedules_ahead s s1" "valid_config s1" by auto
  have "schedules_ahead s1 s'" "valid_config s'"
    using a(2) unfolding s'
    by (simp_all add: schedules_ahead_def valid_config_def Simulation_insert_def heappush_def add_log_def)
  with a show ?thesis by (blast intro: schedules_ahead_trans)
qed

lemma ahead_arrive:
  assumes "PedManager_arrive ident s = Inr s'" and "valid_config s"
  shows "schedules_ahead s s' \<and> valid_config s'"
proof -
  from assms obtain ped pm where gp: "PedManager_getped ident True (peds s) = (Some ped, pm)"
    by (auto simp: PedManager_arrive_def split: prod.splits option.splits)
  let ?s0 = "s\<lparr>peds := pm\<rparr>"
  have v0: "valid_config ?s0" "schedules_ahead s ?s0"
    using assms(2) by (simp_all add: valid_config_def schedules_ahead_def)
  have v1: "valid_config (add_log m ?s0)" "schedules_ahead s (add_log m ?s0)" for m
    using assms(2) by (simp_all add: valid_config_def schedules_ahead_def add_log_def)
  from assms(1) gp consider
      (cross) "PedManager_cross ped ?s0 = Inr s'"
    | (enq) "enqueue ped ident ?s0 = Inr s'"
    | (late) "enqueue ped ident (add_log (PedTooLate ident) ?s0) = Inr s'"
    by (auto simp: PedManager_arrive_def Let_def split: if_splits sum.splits)
  then show ?thesis
  proof cases
    case cross
    from frame_cross [OF cross] v0 show ?thesis
      by (blast intro: schedules_ahead_trans same_frame_ahead same_frame_valid)
  next
    case enq
    from ahead_enqueue [OF enq v0(1)] v0(2) show ?thesis by (blast intro: schedules_ahead_trans)
  next
    case late
    from ahead_enqueue [OF late v1(1)] v1(2) show ?thesis by (blast intro: schedules_ahead_trans)
  qed
qed

lemma ahead_impatient:
  assumes "PedManager_impatient ident s = Inr s'" and "valid_config s"
  shows "schedules_ahead s s' \<and> valid_config s'"
proof (cases "fst (PedManager_getped ident False (peds s))")
  case None
  with assms show ?thesis
    by (auto simp: PedManager_impatient_def schedules_ahead_refl split: prod.splits)
next
  case (Some ped)
  with assms obtain s1 where s1: "PedManager_press 0 ident (add_log (PedGrownImpatient ident) s) = Inr s1"
    and s': "s' = Simulation_insert 60.0 PedImpatient ident s1"
    by (auto simp: PedManager_impatient_def split: prod.splits sum.splits)
  have v: "valid_config (add_log (PedGrownImpatient ident) s)"
    "schedules_ahead s (add_log (PedGrownImpatient ident) s)"
    using assms(2) by (simp_all add: valid_config_def schedules_ahead_def add_log_def)
  from ahead_press [OF s1 v(1)] have a: "schedules_ahead (add_log (PedGrownImpatient ident) s) s1" "valid_config s1"
    by auto
  have "schedules_ahead s1 s'" "valid_config s'"
    using a(2) unfolding s'
    by (simp_all add: schedules_ahead_def valid_config_def Simulation_insert_def heappush_def)
  with a v show ?thesis by (blast intro: schedules_ahead_trans)
qed

lemma ahead_insert_PedSpawn:
  assumes "insert_PedSpawn s = Inr s'" and "valid_config s"
  shows "schedules_ahead s s' \<and> valid_config s'"
proof -
  from assms obtain d p' where e: "exponential (lambdap s) (pedrandom s) = Inr (d, p')"
    and s': "s' = Simulation_insert d PedSpawn (- 1) (s\<lparr>pedrandom := p'\<rparr>)"
    by (auto simp: insert_PedSpawn_def split: sum.splits)
  from assms(2) e have "0 \<le> d \<and> good_source p'"
    by (intro exponential_keeps_good [of "pedrandom s" "lambdap s"]) (auto simp: valid_config_def)
  then show ?thesis using assms(2) unfolding s'
    by (simp add: schedules_ahead_def valid_config_def Simulation_insert_def heappush_def)
qed

lemma ahead_insert_CarSpawn:
  assumes "insert_CarSpawn s = Inr s'" and "valid_config s"
  shows "schedules_ahead s s' \<and> valid_config s'"
proof -
  from assms obtain d p' where e: "exponential (lambdaa s) (autorandom s) = Inr (d, p')"
    and s': "s' = Simulation_insert d CarSpawn (- 1) (s\<lparr>autorandom := p'\<rparr>)"
    by (auto simp: insert_CarSpawn_def split: sum.splits)
  from assms(2) e have "0 \<le> d \<and> good_source p'"
    by (intro exponential_keeps_good [of "autorandom s" "lambdaa s"]) (auto simp: valid_config_def)
  then show ?thesis using assms(2) unfolding s'
    by (simp add: schedules_ahead_def valid_config_def Simulation_insert_def heappush_def)
qed

lemma Ped_init_good:
  assumes "Ped_init ident t src = Inr (ped, src')" and "good_source src"
  shows "good_source src' \<and> 0 < speed_ped ped \<and> 0 \<le> atlight ped \<and> id_ped ped = ident"
proof -
  from assms(1) obtain sp where u: "uniform VKA VKB src = Inr (sp, src')"
    and p: "speed_ped ped = sp" "atlight ped = (BLOCKWIDTH + STREETWIDTH) / sp" "id_ped ped = ident"
    by (auto simp: Ped_init_def py_div_def split: sum.splits if_splits)
  from uniform_keeps_good [OF assms(2) _ u] have "VKA \<le> sp" "good_source src'"
    by (simp_all add: VKA_def VKB_def)
  then show ?thesis using p by (simp add: VKA_def BLOCKWIDTH_def STREETWIDTH_def)
qed

lemma Car_init_good:
  assumes "Car_init ident t src = Inr (car, src')" and "good_source src"
  shows "good_source src' \<and> 100 / 3 \<le> speed car \<and> speed car \<le> 154 / 3 \<and> car_built car
         \<and> id_car car = ident"
proof -
  from assms(1) obtain sp where u: "uniform VJA VJB src = Inr (sp, src')"
    and p: "speed car = sp" "brakedist car = fl (fl (sp ^ 2) / (2 * CARACC))"
       "braketime car = fl (sp / CARACC)" "id_car car = ident"
    by (auto simp: Car_init_def split: sum.splits)
  from uniform_keeps_good [OF assms(2) _ u] have "VJA \<le> sp" "sp \<le> VJB" "good_source src'"
    by (simp_all add: VJA_def VJB_def)
  then show ?thesis using p by (simp add: VJA_def VJB_def car_built_def)
qed

lemma brakedist_bound:
  assumes "car_built car" "100 / 3 \<le> speed car" "speed car \<le> 154 / 3"
  shows "0 \<le> 1281 - brakedist car"
proof -
  have r: "33 \<le> speed car" "speed car \<le> 52" using assms(2,3) by simp_all
  have "speed car * speed car \<le> 52 * 52" using r by (intro mult_mono) simp_all
  then have "speed car ^ 2 / 20 \<le> 1352 / 10" by (simp add: power2_eq_square)
  with brakedist_near [OF r] have "fl (fl (speed car ^ 2) / 20) \<le> 1281" by linarith
  then show ?thesis using assms(1) by (simp add: car_built_def CARACC_def)
qed

lemma ahead_CarManager_spawn:
  assumes "CarManager_spawn car s = Inr s'" and "valid_config s"
    and "car_built car" "100 / 3 \<le> speed car" "speed car \<le> 154 / 3"
  shows "schedules_ahead s s' \<and> valid_config s'"
proof -
  have v: "0 < speed car" using assms(4) by simp
  have d1: "0 \<le> (before (cars s) - brakedist car) / speed car"
    using brakedist_bound [OF assms(3-5)] assms(2) v by (simp add: valid_config_def)
  have d2: "0 \<le> total (cars s) / speed car"
    using assms(2) v by (simp add: valid_config_def)
  from assms(1) v have "s' = add_log (CarSpawned (id_car car))
      (Simulation_insert (total (cars s) / speed car) CarExit (id_car car)
        (Simulation_insert ((before (cars s) - brakedist car) / speed car) CarArrive (id_car car)
          (s\<lparr>cars := (cars s)\<lparr>driving := driving (cars s) @ [car]\<rparr>\<rparr>)))"
    by (simp add: CarManager_spawn_def py_div_def Let_def Simulation_insert_def)
  then show ?thesis using d1 d2 assms(2)
    by (simp add: schedules_ahead_def valid_config_def Simulation_insert_def heappush_def add_log_def)
qed

lemma ahead_next:
  assumes "Simulation_next g ev s = Inr s'" and "valid_config s"
  shows "schedules_ahead (s\<lparr>queue := remove1 ev (queue s), time := at_ev ev,
                             eventcount := eventcount s + 1, log_sim := []\<rparr>) s'
         \<and> valid_config s'"
proof -
  let ?s0 = "s\<lparr>queue := remove1 ev (queue s), time := at_ev ev,
                eventcount := eventcount s + 1, log_sim := []\<rparr>"
  have v0: "valid_config ?s0" using assms(2) by (simp add: valid_config_def)
  show ?thesis
  proof (cases "type_ev ev")
    case TimerExpire
    with assms have "Light_timer g ?s0 = Inr s'" by (simp add: Simulation_next_def Let_def)
    from ahead_Light_timer [OF this] v0 show ?thesis by simp
  next
    case PedSpawn
    show ?thesis
    proof (cases "npeds ?s0 < maxn ?s0")
      case True
      let ?s1 = "?s0\<lparr>npeds := npeds ?s0 + 1\<rparr>"
      from assms PedSpawn True obtain ped p' where
        pi: "Ped_init (npeds ?s1) (time ?s1) (pedrandom ?s1) = Inr (ped, p')"
        and ins: "insert_PedSpawn (PedManager_spawn ped (?s1\<lparr>pedrandom := p'\<rparr>)) = Inr s'"
        by (auto simp: Simulation_next_def Let_def split: sum.splits)
      from Ped_init_good [OF pi] v0 have g: "good_source p'" "0 \<le> atlight ped"
        by (simp_all add: valid_config_def)
      let ?s2 = "PedManager_spawn ped (?s1\<lparr>pedrandom := p'\<rparr>)"
      have "schedules_ahead ?s0 ?s2" "valid_config ?s2"
        using g v0
        by (simp_all add: schedules_ahead_def valid_config_def PedManager_spawn_def
            Simulation_insert_def heappush_def add_log_def)
      with ahead_insert_PedSpawn [OF ins] show ?thesis by (blast intro: schedules_ahead_trans)
    next
      case False
      with assms PedSpawn have "s' = ?s0" by (simp add: Simulation_next_def Let_def)
      with v0 show ?thesis by (simp add: schedules_ahead_refl)
    qed
  next
    case PedArrive
    with assms have "PedManager_arrive (id_ev ev) ?s0 = Inr s'"
      by (simp add: Simulation_next_def Let_def)
    from ahead_arrive [OF this v0] show ?thesis .
  next
    case PedImpatient
    with assms have "PedManager_impatient (id_ev ev) ?s0 = Inr s'"
      by (simp add: Simulation_next_def Let_def)
    from ahead_impatient [OF this v0] show ?thesis .
  next
    case CarSpawn
    show ?thesis
    proof (cases "ncars ?s0 < maxn ?s0")
      case True
      let ?s1 = "?s0\<lparr>ncars := ncars ?s0 + 1\<rparr>"
      from assms CarSpawn True obtain car a' s2 where
        ci: "Car_init (ncars ?s1) (time ?s1) (autorandom ?s1) = Inr (car, a')"
        and sp: "CarManager_spawn car (?s1\<lparr>autorandom := a'\<rparr>) = Inr s2"
        and ins: "insert_CarSpawn s2 = Inr s'"
        by (auto simp: Simulation_next_def Let_def split: sum.splits)
      from Car_init_good [OF ci] v0 have g: "good_source a'" "100 / 3 \<le> speed car"
        "speed car \<le> 154 / 3" "car_built car"
        by (simp_all add: valid_config_def)
      have v1: "valid_config (?s1\<lparr>autorandom := a'\<rparr>)" "schedules_ahead ?s0 (?s1\<lparr>autorandom := a'\<rparr>)"
        using g v0 by (simp_all add: valid_config_def schedules_ahead_def)
      from ahead_CarManager_spawn [OF sp v1(1) g(4,2,3)]
      have a2: "schedules_ahead (?s1\<lparr>autorandom := a'\<rparr>) s2" "valid_config s2" by auto
      from ahead_insert_CarSpawn [OF ins a2(2)] a2 v1 show ?thesis
        by (blast intro: schedules_ahead_trans)
    next
      case False
      with assms CarSpawn have "s' = ?s0" by (simp add: Simulation_next_def Let_def)
      with v0 show ?thesis by (simp add: schedules_ahead_refl)
    qed
  next
    case CarArrive
    with assms have "s' = CarManager_arrive (id_ev ev) ?s0"
      by (simp add: Simulation_next_def Let_def)
    then show ?thesis using v0
      by (auto simp: CarManager_arrive_def schedules_ahead_def valid_config_def add_log_def
          split: option.splits)
  next
    case CarExit
    with assms have "s' = CarManager_exit (id_ev ev) ?s0"
      by (simp add: Simulation_next_def Let_def)
    then show ?thesis using v0
      by (auto simp: CarManager_exit_def schedules_ahead_def valid_config_def add_log_def
          split: option.splits)
  qed
qed

lemma pending_ahead_next:
  assumes "Simulation_next g ev s = Inr s'" and "valid_config s" and "pending_ahead s"
    and "heappop_returns (queue s) ev"
  shows "pending_ahead s' \<and> valid_config s' \<and> time s \<le> time s' \<and> time s' = at_ev ev
         \<and> (\<exists>new. queue s' = remove1 ev (queue s) @ new \<and> (\<forall>e \<in> set new. time s' \<le> at_ev e))"
proof -
  from ahead_next [OF assms(1,2)] obtain new where
    t: "time s' = at_ev ev" and q: "queue s' = remove1 ev (queue s) @ new"
    and n: "\<forall>e \<in> set new. at_ev ev \<le> at_ev e" and v: "valid_config s'"
    by (auto simp: schedules_ahead_def)
  have m: "\<forall>x \<in> set (queue s). at_ev ev \<le> at_ev x"
    using assms(4) by (auto simp: heappop_returns_def lt_ev_def not_less)
  have "ev \<in> set (queue s)" using assms(4) by (simp add: heappop_returns_def)
  then have le: "time s \<le> at_ev ev" using assms(3) by (simp add: pending_ahead_def)
  have "\<forall>e \<in> set (queue s'). at_ev ev \<le> at_ev e"
    using q n m by (auto dest: notin_set_remove1)
  then show ?thesis using t q n v le by (auto simp: pending_ahead_def)
qed

lemma Simulation_fields_valid:
  "good_source a \<Longrightarrow> good_source p \<Longrightarrow> good_source b \<Longrightarrow> valid_config (Simulation_fields n a p b)"
  by (simp add: valid_config_def Simulation_fields_def CarManager_init_def Let_def
      BLOCKWIDTH_def STREETWIDTH_def CROSSWIDTH_def LENGTH_def)

lemma ahead_pending: "schedules_ahead s s' \<Longrightarrow> pending_ahead s \<Longrightarrow> pending_ahead s'"
  by (auto simp: schedules_ahead_def pending_ahead_def)

lemma Simulation_init_valid:
  assumes "Simulation_init n a p b = Inr s0" "good_source a" "good_source p" "good_source b"
  shows "valid_config s0 \<and> pending_ahead s0 \<and> time s0 = 0"
proof -
  let ?f = "Simulation_fields n a p b"
  from assms(1) obtain s1 s2 s3 where st: "insert_PedSpawn ?f = Inr s1" "insert_PedSpawn s1 = Inr s2"
    "insert_CarSpawn s2 = Inr s3" "insert_CarSpawn s3 = Inr s0"
    by (auto simp: Simulation_init_def split: sum.splits)
  have v0: "valid_config ?f" using assms(2-4) by (rule Simulation_fields_valid)
  have p0: "pending_ahead ?f" "time ?f = 0" by (simp_all add: pending_ahead_def Simulation_fields_def)
  from ahead_insert_PedSpawn [OF st(1) v0] have a1: "schedules_ahead ?f s1" "valid_config s1" by auto
  from ahead_insert_PedSpawn [OF st(2) a1(2)] have a2: "schedules_ahead s1 s2" "valid_config s2" by auto
  from ahead_insert_CarSpawn [OF st(3) a2(2)] have a3: "schedules_ahead s2 s3" "valid_config s3" by auto
  from ahead_insert_CarSpawn [OF st(4) a3(2)] have a4: "schedules_ahead s3 s0" "valid_config s0" by auto
  have sa: "schedules_ahead ?f s0" using a1 a2 a3 a4 by (blast intro: schedules_ahead_trans)
  from ahead_pending [OF sa p0(1)] have "pending_ahead s0" .
  moreover have "time s0 = 0" using sa p0(2) by (simp add: schedules_ahead_def)
  ultimately show ?thesis using a4 by simp
qed

lemma run_valid:
  assumes "run g s0 tr s" "valid_config s0" "pending_ahead s0"
  shows "valid_config s \<and> pending_ahead s \<and> time s0 \<le> time s"
  using assms
proof (induction rule: run.induct)
  case run_start
  then show ?case by simp
next
  case (run_next tr s ev s')
  then have "valid_config s" "pending_ahead s" "time s0 \<le> time s" by auto
  with pending_ahead_next [OF run_next.hyps(3) _ _ run_next.hyps(2)] show ?case by auto
qed

text \<open>
  Claim C6. In a run from the state \<^verbatim>\<open>__init__\<close> builds, with sources whose draws lie
  in \<open>[0, 1)\<close>, processing the next event removes an event of minimum time from the
  queue and sets the clock to its time, which is not before the old clock; every event
  inserted while the event is processed is at the new clock plus a delay that is not
  negative, so that no pending event lies before the clock. The clock seen at
  successive dispatches therefore never decreases.
\<close>

theorem clock_never_decreases:
  assumes "good_source a" and "good_source p" and "good_source b"
    and "Simulation_init n a p b = Inr s0"
    and "run g s0 tr s"
    and "heappop_returns (queue s) ev"
    and "Simulation_next g ev s = Inr s'"
  shows "time s \<le> time s' \<and> time s' = at_ev ev
    \<and> (\<forall>x \<in> set (queue s). at_ev ev \<le> at_ev x)
    \<and> (\<exists>new. queue s' = remove1 ev (queue s) @ new \<and> (\<forall>e \<in> set new. time s' \<le> at_ev e))
    \<and> (\<forall>x \<in> set (queue s'). time s' \<le> at_ev x)"
proof -
  from Simulation_init_valid [OF assms(4,1,2,3)] have "valid_config s0" "pending_ahead s0" by auto
  from run_valid [OF assms(5) this] have v: "valid_config s" "pending_ahead s" by auto
  from pending_ahead_next [OF assms(7) v assms(6)] assms(6) show ?thesis
    by (auto simp: pending_ahead_def heappop_returns_def lt_ev_def not_less)
qed

lemma init_half:
  "Simulation_init 1 (PyRandom (\<lambda>_. 1 / 2) 0) (PyRandom (\<lambda>_. 1 / 2) 0) (PyRandom (\<lambda>_. 1 / 2) 0)
   = Inr ((Simulation_fields 1 (PyRandom (\<lambda>_. 1 / 2) 2) (PyRandom (\<lambda>_. 1 / 2) 2) (PyRandom (\<lambda>_. 1 / 2) 0))
           \<lparr>queue := [\<lparr>at_ev = 20 * ln 2, type_ev = PedSpawn, id_ev = - 1\<rparr>,
                      \<lparr>at_ev = 20 * ln 2, type_ev = PedSpawn, id_ev = - 1\<rparr>,
                      \<lparr>at_ev = 15 * ln 2, type_ev = CarSpawn, id_ev = - 1\<rparr>,
                      \<lparr>at_ev = 15 * ln 2, type_ev = CarSpawn, id_ev = - 1\<rparr>],
             totalevents := 4\<rparr>)"
  by (simp add: Simulation_init_def insert_PedSpawn_def insert_CarSpawn_def Simulation_fields_def
      exponential_def math_log_def Simulation_insert_def heappush_def ln_div numeral_2_eq_2)

theorem clock_never_decreases_witness:
  "heappop_returns
     (queue (projr (Simulation_init 1 (PyRandom (\<lambda>_. 1 / 2) 0) (PyRandom (\<lambda>_. 1 / 2) 0)
                      (PyRandom (\<lambda>_. 1 / 2) 0))))
     \<lparr>at_ev = 15 * ln 2, type_ev = CarSpawn, id_ev = - 1\<rparr>
   \<and> (\<exists>s'. Simulation_next Owner \<lparr>at_ev = 15 * ln 2, type_ev = CarSpawn, id_ev = - 1\<rparr>
              (projr (Simulation_init 1 (PyRandom (\<lambda>_. 1 / 2) 0) (PyRandom (\<lambda>_. 1 / 2) 0)
                        (PyRandom (\<lambda>_. 1 / 2) 0))) = Inr s'
           \<and> time (projr (Simulation_init 1 (PyRandom (\<lambda>_. 1 / 2) 0) (PyRandom (\<lambda>_. 1 / 2) 0)
                        (PyRandom (\<lambda>_. 1 / 2) 0))) \<le> time s'
           \<and> time s' = 15 * ln 2)"
proof -
  let ?R = "PyRandom (\<lambda>_. 1 / 2) 0"
  let ?E = "\<lparr>at_ev = 15 * ln 2, type_ev = CarSpawn, id_ev = - 1\<rparr>"
  define S0 where "S0 = projr (Simulation_init 1 ?R ?R ?R)"
  have i: "Simulation_init 1 ?R ?R ?R = Inr S0" unfolding S0_def init_half by simp
  have q: "queue S0 = [\<lparr>at_ev = 20 * ln 2, type_ev = PedSpawn, id_ev = - 1\<rparr>,
                      \<lparr>at_ev = 20 * ln 2, type_ev = PedSpawn, id_ev = - 1\<rparr>,
                      \<lparr>at_ev = 15 * ln 2, type_ev = CarSpawn, id_ev = - 1\<rparr>,
                      \<lparr>at_ev = 15 * ln 2, type_ev = CarSpawn, id_ev = - 1\<rparr>]"
    unfolding S0_def init_half by simp
  have h: "heappop_returns (queue S0) ?E"
    unfolding q by (simp add: heappop_returns_def lt_ev_def)
  have g: "good_source ?R" by simp
  have "\<exists>s'. Simulation_next Owner ?E S0 = Inr s'"
    unfolding S0_def init_half
    by (simp add: Simulation_next_def Simulation_fields_def Car_init_def uniform_def
        CarManager_spawn_def CarManager_init_def py_div_def insert_CarSpawn_def exponential_def
        math_log_def Let_def VJA_def VJB_def CARACC_def BLOCKWIDTH_def STREETWIDTH_def
        CROSSWIDTH_def LENGTH_def Simulation_insert_def add_log_def)
  then obtain s' where n: "Simulation_next Owner ?E S0 = Inr s'" ..
  from clock_never_decreases [OF g g g i run_start h n] n h
  show ?thesis unfolding S0_def by auto
qed

section \<open>The life of a car\<close>

lemma car_exits_append: "car_exits (a @ b) = car_exits a @ car_exits b"
  by (induction a rule: car_exits.induct) auto

lemma car_stops_append: "car_stops (a @ b) = car_stops a @ car_stops b"
  by (induction a rule: car_stops.induct) auto

lemma car_releases_append: "car_releases (a @ b) = car_releases a @ car_releases b"
  by (induction a rule: car_releases.induct) auto

lemma car_releases_exits: "c \<in> set (car_releases tr) \<Longrightarrow> c \<in> fst ` set (car_exits tr)"
proof (induction tr)
  case Nil
  then show ?case by simp
next
  case (Cons m tr)
  then show ?case by (cases m) (auto simp: image_iff)
qed

lemma split_first_Some:
  "split_first P xs = Some (pre, x, post) \<Longrightarrow> xs = pre @ x # post \<and> P x \<and> (\<forall>y \<in> set pre. \<not> P y)"
  by (induction xs arbitrary: pre) (auto split: if_splits option.splits)

lemma split_first_found:
  "x \<in> set xs \<Longrightarrow> P x \<Longrightarrow> \<exists>pre y post. split_first P xs = Some (pre, y, post)"
proof (induction xs)
  case Nil
  then show ?case by simp
next
  case (Cons a xs)
  show ?case
  proof (cases "P a")
    case True
    then show ?thesis by simp
  next
    case False
    with Cons obtain pre y post where "split_first P xs = Some (pre, y, post)" by auto
    with False show ?thesis by simp
  qed
qed

lemma foldl_Welford:
  "foldl (\<lambda>w c. Welford_insert (f c) w) (Welford_of xs) cs = Welford_of (xs @ map f cs)"
proof (induction cs arbitrary: xs)
  case Nil
  show ?case by simp
next
  case (Cons c cs)
  have "Welford_insert (f c) (Welford_of xs) = Welford_of (xs @ [f c])"
    by (simp add: Welford_of_def)
  then show ?case using Cons [of "xs @ [f c]"] by simp
qed

lemma distinct_map_remove1: "distinct (map f xs) \<Longrightarrow> distinct (map f (remove1 x xs))"
proof (induction xs)
  case Nil
  show ?case by simp
next
  case (Cons y ys)
  have "set (remove1 x ys) \<subseteq> set ys" by (rule set_remove1_subset)
  with Cons show ?case by auto
qed

lemma remove1_keeps: "e \<in> set q \<Longrightarrow> e \<noteq> ev \<Longrightarrow> e \<in> set (remove1 ev q)"
  by simp

lemma popped_fields [simp]:
  "time (popped ev s) = at_ev ev" "queue (popped ev s) = remove1 ev (queue s)"
  "log_sim (popped ev s) = []" "cars (popped ev s) = cars s" "peds (popped ev s) = peds s"
  "light (popped ev s) = light s" "ncars (popped ev s) = ncars s" "npeds (popped ev s) = npeds s"
  "maxn (popped ev s) = maxn s" "cardelay (popped ev s) = cardelay s"
  "peddelay (popped ev s) = peddelay s" "pedrandom (popped ev s) = pedrandom s"
  "autorandom (popped ev s) = autorandom s" "buttonrandom (popped ev s) = buttonrandom s"
  "lambdap (popped ev s) = lambdap s" "lambdaa (popped ev s) = lambdaa s"
  by (simp_all add: popped_def)

lemma next_popped:
  "Simulation_next g ev s =
     (let s0 = popped ev s
      in if type_ev ev = TimerExpire then Light_timer g s0
         else if type_ev ev = PedSpawn \<and> npeds s0 < maxn s0 then
           (let s1 = s0\<lparr>npeds := npeds s0 + 1\<rparr>
            in (case Ped_init (npeds s1) (time s1) (pedrandom s1) of
                  Inl e \<Rightarrow> Inl e
                | Inr (ped, p') \<Rightarrow> insert_PedSpawn (PedManager_spawn ped (s1\<lparr>pedrandom := p'\<rparr>))))
         else if type_ev ev = PedArrive then PedManager_arrive (id_ev ev) s0
         else if type_ev ev = PedImpatient then PedManager_impatient (id_ev ev) s0
         else if type_ev ev = CarSpawn \<and> ncars s0 < maxn s0 then
           (let s1 = s0\<lparr>ncars := ncars s0 + 1\<rparr>
            in (case Car_init (ncars s1) (time s1) (autorandom s1) of
                  Inl e \<Rightarrow> Inl e
                | Inr (car, a') \<Rightarrow>
                    (case CarManager_spawn car (s1\<lparr>autorandom := a'\<rparr>) of
                       Inl e \<Rightarrow> Inl e
                     | Inr s2 \<Rightarrow> insert_CarSpawn s2)))
         else if type_ev ev = CarArrive then Inr (CarManager_arrive (id_ev ev) s0)
         else if type_ev ev = CarExit then Inr (CarManager_exit (id_ev ev) s0)
         else Inr s0)"
  by (simp add: Simulation_next_def popped_def)

lemma cars_ok_speed:
  assumes "cars_ok s" and "car \<in> set (driving (cars s)) \<union> set (stopped (cars s))"
  shows "0 < speed car" and "speed car \<noteq> 0"
proof -
  from assms have "33 \<le> speed car" unfolding cars_ok_def by blast
  then show "0 < speed car" and "speed car \<noteq> 0" by simp_all
qed

lemma cars_ok_frame:
  assumes "cars_ok s" and "time s \<le> time s'" and "stopped (cars s') = stopped (cars s)"
    and "driving (cars s') = driving (cars s)
         \<or> driving (cars s') = map (\<lambda>car. car\<lparr>shouldstop := True\<rparr>) (driving (cars s))"
  shows "cars_ok s'"
  using assms unfolding cars_ok_def car_built_def by (auto intro: order_trans)

lemma exits_pending_frame:
  assumes "exits_pending s" and "map id_car (driving (cars s')) = map id_car (driving (cars s))"
    and "\<And>e. e \<in> set (queue s) \<Longrightarrow> type_ev e = CarExit \<Longrightarrow> e \<in> set (queue s')"
  shows "exits_pending s'"
  unfolding exits_pending_def
proof
  fix car assume "car \<in> set (driving (cars s'))"
  then have "id_car car \<in> set (map id_car (driving (cars s')))" by simp
  then have "id_car car \<in> set (map id_car (driving (cars s)))" using assms(2) by simp
  then obtain c where c: "c \<in> set (driving (cars s))" "id_car c = id_car car" by auto
  with assms(1) obtain e where "e \<in> set (queue s)" "type_ev e = CarExit" "id_ev e = id_car c"
    by (auto simp: exits_pending_def)
  with assms(3) c show "\<exists>e \<in> set (queue s'). type_ev e = CarExit \<and> id_ev e = id_car car"
    by (intro bexI [of _ e]) auto
qed

lemma light_sound_frame:
  assumes "light_sound s" and "stopped (cars s') = stopped (cars s)"
    and "state (light s') = state (light s)"
    and "\<And>e. e \<in> set (queue s) \<Longrightarrow> type_ev e = TimerExpire \<Longrightarrow> e \<in> set (queue s')"
  shows "light_sound s'"
  using assms unfolding light_sound_def by metis

lemma cars_accounted_frame:
  assumes "cars_accounted T s"
    and "map id_car (driving (cars s')) = map id_car (driving (cars s))"
    and "stopped (cars s') = stopped (cars s)" and "ncars s' = ncars s"
    and "cardelay s' = cardelay s"
    and "car_exits T' = car_exits T" and "car_stops T' = car_stops T"
    and "car_releases T' = car_releases T"
  shows "cars_accounted T' s'"
  using assms unfolding cars_accounted_def by simp

lemma peds_sound_frame:
  assumes "peds_sound s" and "peds s' = peds s" and "npeds s' = npeds s"
    and "filter (\<lambda>e. type_ev e = PedArrive) (queue s')
         = filter (\<lambda>e. type_ev e = PedArrive) (queue s)"
  shows "peds_sound s'"
proof -
  have "{e \<in> set (queue s'). type_ev e = PedArrive} = {e \<in> set (queue s). type_ev e = PedArrive}"
    using arg_cong [OF assms(4), of set] by simp
  then have "\<forall>e \<in> set (queue s'). type_ev e = PedArrive \<longrightarrow> e \<in> set (queue s)" by blast
  then show ?thesis using assms unfolding peds_sound_def by auto
qed

lemma mark_ids: "map id_car (map (\<lambda>car. car\<lparr>shouldstop := True\<rparr>) ds) = map id_car ds"
  by simp

lemma button_effect_fields:
  assumes "button_effect s s'"
  shows "time s' = time s" "peds s' = peds s" "npeds s' = npeds s" "ncars s' = ncars s"
    "cardelay s' = cardelay s" "stopped (cars s') = stopped (cars s)"
  using assms by (simp_all add: button_effect_def)

lemma button_effect_driving:
  assumes "button_effect s s'"
  shows "driving (cars s') = driving (cars s)
         \<or> driving (cars s') = map (\<lambda>car. car\<lparr>shouldstop := True\<rparr>) (driving (cars s))"
  using assms by (simp add: button_effect_def)

lemma button_effect_ids:
  assumes "button_effect s s'"
  shows "map id_car (driving (cars s')) = map id_car (driving (cars s))"
  using button_effect_driving [OF assms] by (elim disjE) simp_all

lemma button_effect_log:
  assumes "button_effect s s'"
  obtains l where "log_sim s' = log_sim s @ l" "car_exits l = []" "car_stops l = []"
    "car_releases l = []"
  using assms unfolding button_effect_def by blast

lemma button_effect_light:
  assumes "button_effect s s'"
  shows "(queue s' = queue s
            \<and> (state (light s') = state (light s)
                \<or> (state (light s) = GREENWAIT \<and> state (light s') = GREENWAITPRESSED)))
          \<or> (state (light s) = GREEN \<and> state (light s') = YELLOW
              \<and> (\<exists>e. queue s' = queue s @ [e] \<and> type_ev e = TimerExpire))"
  using assms unfolding button_effect_def by blast

lemma button_effect_queue:
  assumes "button_effect s s'"
  shows "set (queue s) \<subseteq> set (queue s')"
    and "filter (\<lambda>e. type_ev e = PedArrive) (queue s')
         = filter (\<lambda>e. type_ev e = PedArrive) (queue s)"
  using button_effect_light [OF assms] by auto

lemma button_effect_cars_accounted:
  assumes "button_effect s s'" and "cars_accounted (tr @ log_sim s) s"
  shows "cars_accounted (tr @ log_sim s') s'"
proof -
  from assms(1) obtain l where l: "log_sim s' = log_sim s @ l" "car_exits l = []"
    "car_stops l = []" "car_releases l = []"
    by (rule button_effect_log)
  show ?thesis
    using button_effect_fields [OF assms(1)] button_effect_ids [OF assms(1)] l
    by (intro cars_accounted_frame [OF assms(2)])
      (simp_all add: car_exits_append car_stops_append car_releases_append)
qed

lemma button_effect_cars_ok:
  assumes be: "button_effect s s'" and cs: "cars_ok s"
  shows "cars_ok s'"
proof (rule cars_ok_frame [OF cs])
  show "time s \<le> time s'" using button_effect_fields(1) [OF be] by simp
  show "stopped (cars s') = stopped (cars s)" by (rule button_effect_fields(6) [OF be])
  show "driving (cars s') = driving (cars s)
         \<or> driving (cars s') = map (\<lambda>car. car\<lparr>shouldstop := True\<rparr>) (driving (cars s))"
    by (rule button_effect_driving [OF be])
qed

lemma button_effect_exits_pending:
  assumes be: "button_effect s s'" and cs: "exits_pending s"
  shows "exits_pending s'"
proof (rule exits_pending_frame [OF cs])
  show "map id_car (driving (cars s')) = map id_car (driving (cars s))"
    by (rule button_effect_ids [OF be])
  fix e assume "e \<in> set (queue s)"
  then show "e \<in> set (queue s')" using button_effect_queue(1) [OF be] by blast
qed

lemma button_effect_light_sound:
  assumes be: "button_effect s s'" and ls: "light_sound s"
  shows "light_sound s'"
proof -
  have st: "stopped (cars s') = stopped (cars s)" by (rule button_effect_fields(6) [OF be])
  from button_effect_light [OF be] consider
      (same) "queue s' = queue s" "state (light s') = state (light s)"
    | (pressed) "queue s' = queue s" "state (light s) = GREENWAIT"
        "state (light s') = GREENWAITPRESSED"
    | (yellow) e where "state (light s) = GREEN" "state (light s') = YELLOW"
        "queue s' = queue s @ [e]" "type_ev e = TimerExpire"
    by blast
  then show ?thesis
  proof cases
    case same
    with ls st show ?thesis by (simp add: light_sound_def)
  next
    case pressed
    from ls pressed(2) have "stopped (cars s) = []" by (auto simp: light_sound_def)
    moreover from ls pressed(2) have "\<exists>e \<in> set (queue s). type_ev e = TimerExpire"
      by (simp add: light_sound_def)
    ultimately show ?thesis using st pressed(1) by (simp add: light_sound_def)
  next
    case yellow
    from ls yellow(1) have "stopped (cars s) = []" by (auto simp: light_sound_def)
    then show ?thesis using st yellow by (simp add: light_sound_def)
  qed
qed

lemma button_effect_cars_sound:
  assumes be: "button_effect s s'" and cs: "cars_sound s"
  shows "cars_sound s'"
  using cs button_effect_cars_ok [OF be] button_effect_exits_pending [OF be]
    button_effect_light_sound [OF be]
  by (simp add: cars_sound_def)

lemma button_effect_peds_sound:
  assumes be: "button_effect s s'" and ps: "peds_sound s"
  shows "peds_sound s'"
  by (rule peds_sound_frame [OF ps button_effect_fields(2,3) [OF be] button_effect_queue(2) [OF be]])

lemma to_yellow_effect:
  assumes "cars_ok s" and "valid_config s"
    and "state (light s) = GREEN \<or> state (light s) = GREENWAITPRESSED"
  shows "to_yellow s =
     Inr (s\<lparr>light := (light s)\<lparr>state := YELLOW\<rparr>,
            cars := (cars s)\<lparr>driving := map (\<lambda>car. car\<lparr>shouldstop := True\<rparr>) (driving (cars s))\<rparr>,
            log_sim := log_sim s @ LightChanged YELLOW
                         # map (\<lambda>car. CarShouldStop (id_car car)) (driving (cars s)),
            queue := queue s
              @ [\<lparr>at_ev = time s + YELLOWTIMEOUT, type_ev = TimerExpire, id_ev = - 1\<rparr>],
            totalevents := totalevents s + 1\<rparr>)"
proof -
  have "\<forall>car \<in> set (driving (cars s)). 0 < speed car"
    using cars_ok_speed(1) [OF assms(1)] by simp
  moreover have "before (cars s) \<le> after (cars s)" using assms(2) by (simp add: valid_config_def)
  ultimately have "lightchange_yellow (time s) (before (cars s)) (after (cars s)) (driving (cars s))
     = Inr (map (\<lambda>car. car\<lparr>shouldstop := True\<rparr>) (driving (cars s)),
            map (\<lambda>car. CarShouldStop (id_car car)) (driving (cars s)))"
    by (rule lightchange_yellow_marks_all)
  then show ?thesis
    by (simp add: to_yellow_def CarManager_lightchange_def add_log_def Simulation_insert_def
        heappush_def Let_def)
qed

lemma car_free_shouldstop:
  "car_exits (map (\<lambda>car. CarShouldStop (id_car car)) ds) = []"
  "car_stops (map (\<lambda>car. CarShouldStop (id_car car)) ds) = []"
  "car_releases (map (\<lambda>car. CarShouldStop (id_car car)) ds) = []"
  by (induction ds) simp_all

lemma Light_press_effect:
  assumes "cars_ok s" and "valid_config s"
  shows "\<exists>s'. Light_press s = Inr s' \<and> button_effect s s'"
proof -
  consider (gw) "state (light s) = GREENWAIT" | (g) "state (light s) = GREEN"
    | (other) "state (light s) \<noteq> GREENWAIT" "state (light s) \<noteq> GREEN" by blast
  then show ?thesis
  proof cases
    case gw
    then show ?thesis by (simp add: Light_press_def button_effect_def)
  next
    case g
    from to_yellow_effect [OF assms] g show ?thesis
      by (simp add: Light_press_def button_effect_def car_free_shouldstop)
  next
    case other
    then show ?thesis by (simp add: Light_press_def button_effect_def)
  qed
qed

lemma button_effect_trans:
  assumes "button_effect s s1" and "button_effect s1 s2"
    and "queue s1 = queue s" "state (light s1) = state (light s)" "cars s1 = cars s"
  shows "button_effect s s2"
proof -
  from assms(1) obtain l1 where l1: "log_sim s1 = log_sim s @ l1" "car_exits l1 = []"
    "car_stops l1 = []" "car_releases l1 = []" by (auto simp: button_effect_def)
  from assms(2) obtain l2 where l2: "log_sim s2 = log_sim s1 @ l2" "car_exits l2 = []"
    "car_stops l2 = []" "car_releases l2 = []" by (auto simp: button_effect_def)
  have "log_sim s2 = log_sim s @ (l1 @ l2)" "car_exits (l1 @ l2) = []"
    "car_stops (l1 @ l2) = []" "car_releases (l1 @ l2) = []"
    using l1 l2 by (simp_all add: car_exits_append car_stops_append car_releases_append)
  then have "\<exists>l. log_sim s2 = log_sim s @ l \<and> car_exits l = [] \<and> car_stops l = []
                \<and> car_releases l = []" by blast
  then show ?thesis using assms unfolding button_effect_def by simp
qed

lemma press_effect:
  assumes "cars_ok s" and "valid_config s"
  shows "\<exists>s'. PedManager_press n ident s = Inr s' \<and> button_effect s s'"
proof -
  from assms(2) have "good_source (buttonrandom s)" by (simp add: valid_config_def)
  then obtain r b' where b: "bernouli (if n = 0 then 15 / 16 else 1 / (real_of_int n + 1))
      (buttonrandom s) = Inr (r, b')" "good_source b'"
    by (rule bernouli_good)
  let ?s1 = "s\<lparr>buttonrandom := b'\<rparr>"
  let ?s2 = "add_log (PedPressed ident) ?s1"
  have e1: "button_effect s ?s1" by (simp add: button_effect_def)
  have e2: "button_effect s ?s2" by (simp add: button_effect_def add_log_def)
  show ?thesis
  proof (cases r)
    case True
    have "cars_ok ?s2" using assms(1) by (simp add: cars_ok_def add_log_def)
    moreover have "valid_config ?s2" using assms(2) b(2) by (simp add: valid_config_def add_log_def)
    ultimately obtain s' where s': "Light_press ?s2 = Inr s'" "button_effect ?s2 s'"
      using Light_press_effect by blast
    have "button_effect s s'"
      using e2 s'(2) by (rule button_effect_trans) (simp_all add: add_log_def)
    with s'(1) b(1) True show ?thesis by (simp add: PedManager_press_def)
  next
    case False
    with b(1) e1 show ?thesis by (simp add: PedManager_press_def)
  qed
qed

lemma popped_time:
  assumes "pending_ahead s" and "heappop_returns (queue s) ev"
  shows "time s \<le> time (popped ev s)"
  using assms by (simp add: pending_ahead_def heappop_returns_def)

lemma popped_cars_ok:
  assumes "cars_ok s" and "pending_ahead s" and "heappop_returns (queue s) ev"
  shows "cars_ok (popped ev s)"
  by (rule cars_ok_frame [OF assms(1) popped_time [OF assms(2,3)]]) simp_all

lemma popped_light_sound:
  assumes "light_sound s" and "type_ev ev \<noteq> TimerExpire"
  shows "light_sound (popped ev s)"
proof (rule light_sound_frame [OF assms(1)])
  fix e assume e: "e \<in> set (queue s)" "type_ev e = TimerExpire"
  with assms(2) have "e \<noteq> ev" by auto
  with e show "e \<in> set (queue (popped ev s))" by simp
qed simp_all

lemma popped_exits_pending:
  assumes "exits_pending s" and "type_ev ev \<noteq> CarExit"
  shows "exits_pending (popped ev s)"
proof (rule exits_pending_frame [OF assms(1)])
  fix e assume e: "e \<in> set (queue s)" "type_ev e = CarExit"
  with assms(2) have "e \<noteq> ev" by auto
  with e show "e \<in> set (queue (popped ev s))" by simp
qed simp

lemma popped_peds_sound:
  assumes ps: "peds_sound s" and ty: "type_ev ev \<noteq> PedArrive"
  shows "peds_sound (popped ev s)"
proof (rule peds_sound_frame [OF ps])
  show "filter (\<lambda>e. type_ev e = PedArrive) (queue (popped ev s))
        = filter (\<lambda>e. type_ev e = PedArrive) (queue s)"
    using ty by (simp add: filter_remove1 remove1_idem)
qed simp_all

lemma popped_cars_accounted:
  "cars_accounted tr s \<Longrightarrow> cars_accounted (tr @ log_sim (popped ev s)) (popped ev s)"
  by (simp add: cars_accounted_def)

lemma step_CarExit:
  assumes inv: "run_inv tr s" and hp: "heappop_returns (queue s) ev"
    and ty: "type_ev ev = CarExit"
  shows "\<exists>s'. Simulation_next Owner ev s = Inr s'
           \<and> cars_accounted (tr @ log_sim s') s' \<and> cars_sound s' \<and> peds_sound s'"
proof -
  let ?x = "popped ev s"
  from inv have ca: "cars_accounted tr s" and ok: "cars_ok s" and ep: "exits_pending s"
    and ls: "light_sound s" and ps: "peds_sound s" and pa: "pending_ahead s"
    by (simp_all add: run_inv_def cars_sound_def)
  have nx: "Simulation_next Owner ev s = Inr (CarManager_exit (id_ev ev) ?x)"
    using ty by (simp add: next_popped)
  have okx: "cars_ok ?x" by (rule popped_cars_ok [OF ok pa hp])
  have lsx: "light_sound ?x" using ty by (intro popped_light_sound [OF ls]) simp
  have psx: "peds_sound ?x" using ty by (intro popped_peds_sound [OF ps]) simp
  show ?thesis
  proof (cases "split_first (\<lambda>car. id_car car = id_ev ev) (driving (cars s))")
    case None
    then have s': "CarManager_exit (id_ev ev) ?x = ?x" by (simp add: CarManager_exit_def)
    have no: "\<And>car. car \<in> set (driving (cars s)) \<Longrightarrow> id_car car \<noteq> id_ev ev"
      using None split_first_found [of _ "driving (cars s)" "\<lambda>car. id_car car = id_ev ev"]
      by fastforce
    have epx: "exits_pending ?x"
      unfolding exits_pending_def
    proof
      fix car assume "car \<in> set (driving (cars ?x))"
      then have c: "car \<in> set (driving (cars s))" by simp
      with ep obtain e where e: "e \<in> set (queue s)" "type_ev e = CarExit" "id_ev e = id_car car"
        by (auto simp: exits_pending_def)
      from no [OF c] e have "e \<noteq> ev" by auto
      with e show "\<exists>e \<in> set (queue ?x). type_ev e = CarExit \<and> id_ev e = id_car car"
        by (intro bexI [of _ e]) auto
    qed
    show ?thesis
      unfolding nx s' using popped_cars_accounted [OF ca] okx epx lsx psx
      by (simp add: cars_sound_def)
  next
    case (Some a)
    then obtain pre c post where sf: "split_first (\<lambda>car. id_car car = id_ev ev) (driving (cars s))
        = Some (pre, c, post)" by (cases a) auto
    from split_first_Some [OF sf] have dr: "driving (cars s) = pre @ c # post"
      and idc: "id_car c = id_ev ev" by auto
    let ?s' = "?x\<lparr>cars := (cars ?x)\<lparr>driving := pre @ post\<rparr>,
                  cardelay := Welford_insert 0 (cardelay ?x),
                  log_sim := [CarLeftNoDelay (id_ev ev) (time ?x - atime c)]\<rparr>"
    have s': "CarManager_exit (id_ev ev) ?x = ?s'"
      using sf by (simp add: CarManager_exit_def add_log_def)
    have dist: "distinct (map id_car (driving (cars s)) @ map id_car (stopped (cars s))
                @ map fst (car_exits tr))"
      using ca by (simp add: cars_accounted_def)
    have ca': "cars_accounted (tr @ log_sim ?s') ?s'"
      using ca dr idc unfolding cars_accounted_def
      by (auto simp: car_exits_append car_stops_append car_releases_append Welford_of_snoc)
    have ok': "cars_ok ?s'"
      using okx dr by (auto simp: cars_ok_def)
    have ep': "exits_pending ?s'"
      unfolding exits_pending_def
    proof
      fix car assume "car \<in> set (driving (cars ?s'))"
      then have c: "car \<in> set (pre @ post)" by simp
      then have "car \<in> set (driving (cars s))" using dr by auto
      with ep obtain e where e: "e \<in> set (queue s)" "type_ev e = CarExit" "id_ev e = id_car car"
        by (auto simp: exits_pending_def)
      have "id_car car \<noteq> id_car c" using dist dr c by (auto simp: image_iff)
      with e idc have "e \<noteq> ev" by auto
      with e show "\<exists>e \<in> set (queue ?s'). type_ev e = CarExit \<and> id_ev e = id_car car"
        by (intro bexI [of _ e]) auto
    qed
    have ls': "light_sound ?s'" using lsx by (simp add: light_sound_def)
    have ps': "peds_sound ?s'" by (rule peds_sound_frame [OF psx]) simp_all
    show ?thesis
      unfolding nx s' using ca' ok' ep' ls' ps' by (simp add: cars_sound_def)
  qed
qed

lemma Car_init_ex:
  assumes "good_source src"
  obtains car src' where "Car_init ident t src = Inr (car, src')" "good_source src'"
    "100 / 3 \<le> speed car" "speed car \<le> 154 / 3" "car_built car" "id_car car = ident"
proof -
  from assms obtain x src' where u: "uniform VJA VJB src = Inr (x, src')"
    by (rule uniform_good [of src VJA VJB]) (simp_all add: VJA_def VJB_def)
  then obtain car where c: "Car_init ident t src = Inr (car, src')"
    by (simp add: Car_init_def)
  from Car_init_good [OF c assms] c show ?thesis by (intro that [of car src']) simp_all
qed

lemma Ped_init_ex:
  assumes "good_source src"
  obtains ped src' where "Ped_init ident t src = Inr (ped, src')" "good_source src'"
    "0 \<le> atlight ped" "id_ped ped = ident"
proof -
  from assms obtain x src' where u: "uniform VKA VKB src = Inr (x, src')" "VKA \<le> x"
    by (rule uniform_good [of src VKA VKB]) (simp_all add: VKA_def VKB_def)
  then have "x \<noteq> 0" by (simp add: VKA_def)
  with u obtain ped where c: "Ped_init ident t src = Inr (ped, src')"
    by (simp add: Ped_init_def py_div_def)
  from Ped_init_good [OF c assms] c show ?thesis by (intro that [of ped src']) simp_all
qed

lemma step_CarArrive:
  assumes inv: "run_inv tr s" and hp: "heappop_returns (queue s) ev"
    and ty: "type_ev ev = CarArrive"
  shows "\<exists>s'. Simulation_next Owner ev s = Inr s'
           \<and> cars_accounted (tr @ log_sim s') s' \<and> cars_sound s' \<and> peds_sound s'"
proof -
  let ?x = "popped ev s"
  from inv have ca: "cars_accounted tr s" and ok: "cars_ok s" and ep: "exits_pending s"
    and ls: "light_sound s" and ps: "peds_sound s" and pa: "pending_ahead s"
    by (simp_all add: run_inv_def cars_sound_def)
  have nx: "Simulation_next Owner ev s = Inr (CarManager_arrive (id_ev ev) ?x)"
    using ty by (simp add: next_popped)
  have cax: "cars_accounted (tr @ log_sim ?x) ?x" by (rule popped_cars_accounted [OF ca])
  have okx: "cars_ok ?x" by (rule popped_cars_ok [OF ok pa hp])
  have epx: "exits_pending ?x" using ty by (intro popped_exits_pending [OF ep]) simp
  have lsx: "light_sound ?x" using ty by (intro popped_light_sound [OF ls]) simp
  have psx: "peds_sound ?x" using ty by (intro popped_peds_sound [OF ps]) simp
  show ?thesis
  proof (cases "split_first (\<lambda>car. id_car car = id_ev ev) (driving (cars s))")
    case None
    then have s': "CarManager_arrive (id_ev ev) ?x = ?x" by (simp add: CarManager_arrive_def)
    show ?thesis unfolding nx s' using cax okx epx lsx psx by (simp add: cars_sound_def)
  next
    case (Some a)
    then obtain pre c post where sf: "split_first (\<lambda>car. id_car car = id_ev ev) (driving (cars s))
        = Some (pre, c, post)" by (cases a) auto
    from split_first_Some [OF sf] have dr: "driving (cars s) = pre @ c # post"
      and idc: "id_car c = id_ev ev" by auto
    let ?c = "c\<lparr>stoptime := time ?x\<rparr>"
    show ?thesis
    proof (cases "shouldstop c \<and> (state (light s) = YELLOW \<or> state (light s) = RED)")
      case True
      let ?s' = "?x\<lparr>cars := (cars ?x)\<lparr>driving := pre @ post,
                                        stopped := stopped (cars ?x) @ [?c]\<rparr>,
                    log_sim := [CarWillNotMake (id_ev ev)]\<rparr>"
      have s': "CarManager_arrive (id_ev ev) ?x = ?s'"
        using sf True by (simp add: CarManager_arrive_def add_log_def)
      have ca': "cars_accounted (tr @ log_sim ?s') ?s'"
        using ca dr idc unfolding cars_accounted_def
        by (auto simp: car_exits_append car_stops_append car_releases_append)
      have ok': "cars_ok ?s'"
        using okx dr by (auto simp: cars_ok_def car_built_def)
      have ep': "exits_pending ?s'"
        using epx dr by (auto simp: exits_pending_def)
      have ls': "light_sound ?s'" using lsx True by (auto simp: light_sound_def)
      have ps': "peds_sound ?s'" by (rule peds_sound_frame [OF psx]) simp_all
      show ?thesis
        unfolding nx s' using ca' ok' ep' ls' ps' by (simp add: cars_sound_def)
    next
      case False
      let ?s' = "?x\<lparr>cars := (cars ?x)\<lparr>driving := pre @ ?c # post\<rparr>,
                    log_sim := [CarWillMake (id_ev ev)]\<rparr>"
      have s': "CarManager_arrive (id_ev ev) ?x = ?s'"
        using sf False by (auto simp: CarManager_arrive_def add_log_def)
      have ca': "cars_accounted (tr @ log_sim ?s') ?s'"
        using ca dr idc unfolding cars_accounted_def
        by (auto simp: car_exits_append car_stops_append car_releases_append)
      have ok': "cars_ok ?s'"
        using okx dr by (auto simp: cars_ok_def car_built_def)
      have ep': "exits_pending ?s'"
        using epx dr by (auto simp: exits_pending_def)
      have ls': "light_sound ?s'" using lsx by (simp add: light_sound_def)
      have ps': "peds_sound ?s'" by (rule peds_sound_frame [OF psx]) simp_all
      show ?thesis
        unfolding nx s' using ca' ok' ep' ls' ps' by (simp add: cars_sound_def)
    qed
  qed
qed

lemma step_CarSpawn:
  assumes inv: "run_inv tr s" and hp: "heappop_returns (queue s) ev"
    and ty: "type_ev ev = CarSpawn"
  shows "\<exists>s'. Simulation_next Owner ev s = Inr s'
           \<and> cars_accounted (tr @ log_sim s') s' \<and> cars_sound s' \<and> peds_sound s'"
proof -
  let ?x = "popped ev s"
  from inv have ca: "cars_accounted tr s" and ok: "cars_ok s" and ep: "exits_pending s"
    and ls: "light_sound s" and ps: "peds_sound s" and pa: "pending_ahead s"
    and vc: "valid_config s"
    by (simp_all add: run_inv_def cars_sound_def)
  have cax: "cars_accounted (tr @ log_sim ?x) ?x" by (rule popped_cars_accounted [OF ca])
  have okx: "cars_ok ?x" by (rule popped_cars_ok [OF ok pa hp])
  have epx: "exits_pending ?x" using ty by (intro popped_exits_pending [OF ep]) simp
  have lsx: "light_sound ?x" using ty by (intro popped_light_sound [OF ls]) simp
  have psx: "peds_sound ?x" using ty by (intro popped_peds_sound [OF ps]) simp
  show ?thesis
  proof (cases "ncars s < maxn s")
    case False
    then have nx: "Simulation_next Owner ev s = Inr ?x" using ty by (simp add: next_popped)
    show ?thesis unfolding nx using cax okx epx lsx psx by (simp add: cars_sound_def)
  next
    case True
    from vc have g: "good_source (autorandom s)" by (simp add: valid_config_def)
    then obtain car a' where ci: "Car_init (ncars s + 1) (at_ev ev) (autorandom s) = Inr (car, a')"
      and ga: "good_source a'" and sp: "100 / 3 \<le> speed car" "speed car \<le> 154 / 3"
      and cb: "car_built car" and idc: "id_car car = ncars s + 1"
      by (rule Car_init_ex)
    have v: "speed car \<noteq> 0" "0 < speed car" "33 \<le> speed car" "speed car \<le> 52"
      using sp by simp_all
    from ga obtain d a'' where ex: "exponential (lambdaa s) a' = Inr (d, a'')"
      by (rule exponential_good [of a' "lambdaa s"]) (use vc in \<open>simp_all add: valid_config_def\<close>)
    let ?s' = "?x\<lparr>ncars := ncars s + 1, autorandom := a'',
        cars := (cars s)\<lparr>driving := driving (cars s) @ [car]\<rparr>,
        queue := remove1 ev (queue s)
          @ [\<lparr>at_ev = at_ev ev + (before (cars s) - brakedist car) / speed car,
               type_ev = CarArrive, id_ev = id_car car\<rparr>,
             \<lparr>at_ev = at_ev ev + total (cars s) / speed car, type_ev = CarExit,
               id_ev = id_car car\<rparr>,
             \<lparr>at_ev = at_ev ev + d, type_ev = CarSpawn, id_ev = - 1\<rparr>],
        totalevents := totalevents s + 3,
        log_sim := [CarSpawned (id_car car)]\<rparr>"
    have nx: "Simulation_next Owner ev s = Inr ?s'"
      using ty True ci ex v
      by (simp add: next_popped Let_def CarManager_spawn_def py_div_def insert_CarSpawn_def
          Simulation_insert_def heappush_def add_log_def popped_def)
    have n0: "0 \<le> ncars s" using ca by (simp add: cars_accounted_def)
    have un: "insert (ncars s + 1) {1..ncars s} = {1..ncars s + 1}" using n0 by auto
    have setL: "id_car ` set (driving (cars s)) \<union> (id_car ` set (stopped (cars s))
                  \<union> fst ` set (car_exits tr)) = {1..ncars s}"
      using ca by (simp add: cars_accounted_def)
    have "ncars s + 1 \<notin> {1..ncars s}" by simp
    then have fresh: "ncars s + 1 \<notin> id_car ` set (driving (cars s))"
      "ncars s + 1 \<notin> id_car ` set (stopped (cars s))"
      "ncars s + 1 \<notin> fst ` set (car_exits tr)"
      unfolding setL [symmetric] by blast+
    have "id_car ` set (driving (cars s)) \<union> (id_car ` set (stopped (cars s))
                  \<union> fst ` set (car_exits tr)) \<union> {ncars s + 1} = {1..ncars s + 1}"
      unfolding setL using un by simp
    then have setL': "insert (ncars s + 1) (id_car ` set (driving (cars s))
        \<union> (id_car ` set (stopped (cars s)) \<union> fst ` set (car_exits tr))) = {1..ncars s + 1}"
      by simp
    have ca': "cars_accounted (tr @ log_sim ?s') ?s'"
      using ca idc fresh setL' n0 unfolding cars_accounted_def
      by (simp add: car_exits_append car_stops_append car_releases_append)
    have ok': "cars_ok ?s'"
      using okx cb v by (auto simp: cars_ok_def)
    have ep': "exits_pending ?s'"
      using epx by (auto simp: exits_pending_def)
    have ls': "light_sound ?s'" using lsx by (auto simp: light_sound_def)
    have ps': "peds_sound ?s'" by (rule peds_sound_frame [OF psx]) simp_all
    show ?thesis
      unfolding nx using ca' ok' ep' ls' ps' by (simp add: cars_sound_def)
  qed
qed

lemma car_free_crossed:
  "car_exits (map (\<lambda>p. PedCrossed (f p) (g p)) ps) = []"
  "car_stops (map (\<lambda>p. PedCrossed (f p) (g p)) ps) = []"
  "car_releases (map (\<lambda>p. PedCrossed (f p) (g p)) ps) = []"
  by (induction ps) simp_all

lemma car_left_entries:
  "car_exits (map (\<lambda>car. CarLeft (id_car car) (g car) (f car)) cs) = map (\<lambda>car. (id_car car, f car)) cs"
  "car_stops (map (\<lambda>car. CarLeft (id_car car) (g car) (f car)) cs) = []"
  "car_releases (map (\<lambda>car. CarLeft (id_car car) (g car) (f car)) cs) = map id_car cs"
  by (induction cs) simp_all

lemma step_PedSpawn:
  assumes inv: "run_inv tr s" and hp: "heappop_returns (queue s) ev"
    and ty: "type_ev ev = PedSpawn"
  shows "\<exists>s'. Simulation_next Owner ev s = Inr s'
           \<and> cars_accounted (tr @ log_sim s') s' \<and> cars_sound s' \<and> peds_sound s'"
proof -
  let ?x = "popped ev s"
  from inv have ca: "cars_accounted tr s" and ok: "cars_ok s" and ep: "exits_pending s"
    and ls: "light_sound s" and ps: "peds_sound s" and pa: "pending_ahead s"
    and vc: "valid_config s"
    by (simp_all add: run_inv_def cars_sound_def)
  have cax: "cars_accounted (tr @ log_sim ?x) ?x" by (rule popped_cars_accounted [OF ca])
  have okx: "cars_ok ?x" by (rule popped_cars_ok [OF ok pa hp])
  have epx: "exits_pending ?x" using ty by (intro popped_exits_pending [OF ep]) simp
  have lsx: "light_sound ?x" using ty by (intro popped_light_sound [OF ls]) simp
  have psx: "peds_sound ?x" using ty by (intro popped_peds_sound [OF ps]) simp
  show ?thesis
  proof (cases "npeds s < maxn s")
    case False
    then have nx: "Simulation_next Owner ev s = Inr ?x" using ty by (simp add: next_popped)
    show ?thesis unfolding nx using cax okx epx lsx psx by (simp add: cars_sound_def)
  next
    case True
    from vc have g: "good_source (pedrandom s)" by (simp add: valid_config_def)
    then obtain ped p' where pi: "Ped_init (npeds s + 1) (at_ev ev) (pedrandom s) = Inr (ped, p')"
      and gp: "good_source p'" and idp: "id_ped ped = npeds s + 1"
      by (rule Ped_init_ex)
    from gp obtain d p'' where ex: "exponential (lambdap s) p' = Inr (d, p'')"
      by (rule exponential_good [of p' "lambdap s"]) (use vc in \<open>simp_all add: valid_config_def\<close>)
    let ?s' = "?x\<lparr>npeds := npeds s + 1, pedrandom := p'',
        peds := (peds s)\<lparr>walking := walking (peds s) @ [ped]\<rparr>,
        queue := remove1 ev (queue s)
          @ [\<lparr>at_ev = at_ev ev + atlight ped, type_ev = PedArrive, id_ev = id_ped ped\<rparr>,
             \<lparr>at_ev = at_ev ev + d, type_ev = PedSpawn, id_ev = - 1\<rparr>],
        totalevents := totalevents s + 2,
        log_sim := [PedSpawned (id_ped ped)]\<rparr>"
    have nx: "Simulation_next Owner ev s = Inr ?s'"
      using ty True pi ex
      by (simp add: next_popped Let_def PedManager_spawn_def insert_PedSpawn_def
          Simulation_insert_def heappush_def add_log_def popped_def)
    have ca': "cars_accounted (tr @ log_sim ?s') ?s'"
      by (rule cars_accounted_frame [OF cax])
        (simp_all add: car_exits_append car_stops_append car_releases_append)
    have ok': "cars_ok ?s'" by (rule cars_ok_frame [OF okx]) simp_all
    have ep': "exits_pending ?s'" by (rule exits_pending_frame [OF epx]) simp_all
    have ls': "light_sound ?s'" by (rule light_sound_frame [OF lsx]) simp_all
    have n0: "0 \<le> npeds s" using ps by (simp add: peds_sound_def)
    have sub: "id_ped ` set (walking (peds s) @ waiting (peds s)) \<subseteq> {1..npeds s}"
      using ps by (simp add: peds_sound_def)
    have "npeds s + 1 \<notin> {1..npeds s}" by simp
    with sub have fresh: "npeds s + 1 \<notin> id_ped ` set (walking (peds s))"
      "npeds s + 1 \<notin> id_ped ` set (waiting (peds s))" by auto
    have evs: "\<And>e. e \<in> set (remove1 ev (queue s)) \<Longrightarrow> type_ev e = PedArrive
        \<Longrightarrow> id_ev e \<in> id_ped ` set (walking (peds s))"
      using psx by (simp add: peds_sound_def)
    then have fresh_ev: "npeds s + 1 \<notin> id_ev ` {e \<in> set (remove1 ev (queue s)). type_ev e = PedArrive}"
      using fresh(1) by auto
    have dq: "distinct (map id_ev (filter (\<lambda>e. type_ev e = PedArrive) (remove1 ev (queue s))))"
      using psx by (simp add: peds_sound_def)
    have d1: "distinct (map id_ped (walking (peds s) @ waiting (peds s)))"
      using ps by (simp add: peds_sound_def)
    have ps': "peds_sound ?s'"
      unfolding peds_sound_def
    proof (intro conjI)
      show "distinct (map id_ped (walking (peds ?s') @ waiting (peds ?s')))"
        using d1 fresh idp by auto
      show "\<forall>e \<in> set (queue ?s'). type_ev e = PedArrive
              \<longrightarrow> id_ev e \<in> id_ped ` set (walking (peds ?s'))"
        using evs by auto
      show "distinct (map id_ev (filter (\<lambda>e. type_ev e = PedArrive) (queue ?s')))"
        using dq fresh_ev idp by simp
      show "id_ped ` set (walking (peds ?s') @ waiting (peds ?s')) \<subseteq> {1..npeds ?s'}"
        using sub idp n0 by auto
      show "0 \<le> npeds ?s'" using n0 by simp
    qed
    show ?thesis
      unfolding nx using ca' ok' ep' ls' ps' by (simp add: cars_sound_def)
  qed
qed

lemma light_sound_stopped_nil:
  "light_sound s \<Longrightarrow> state (light s) \<noteq> YELLOW \<Longrightarrow> state (light s) \<noteq> RED \<Longrightarrow> stopped (cars s) = []"
  by (auto simp: light_sound_def)

lemma step_TimerExpire:
  assumes inv: "run_inv tr s" and hp: "heappop_returns (queue s) ev"
    and ty: "type_ev ev = TimerExpire"
  shows "\<exists>s'. Simulation_next Owner ev s = Inr s'
           \<and> cars_accounted (tr @ log_sim s') s' \<and> cars_sound s' \<and> peds_sound s'"
proof -
  let ?x = "popped ev s"
  from inv have ca: "cars_accounted tr s" and ok: "cars_ok s" and ep: "exits_pending s"
    and ls: "light_sound s" and ps: "peds_sound s" and pa: "pending_ahead s"
    and vc: "valid_config s"
    by (simp_all add: run_inv_def cars_sound_def)
  have nx: "Simulation_next Owner ev s = Light_timer Owner ?x"
    using ty by (simp add: next_popped)
  have cax: "cars_accounted (tr @ log_sim ?x) ?x" by (rule popped_cars_accounted [OF ca])
  have okx: "cars_ok ?x" by (rule popped_cars_ok [OF ok pa hp])
  have epx: "exits_pending ?x" using ty by (intro popped_exits_pending [OF ep]) simp
  have psx: "peds_sound ?x" using ty by (intro popped_peds_sound [OF ps]) simp
  have vcx: "valid_config ?x" using vc by (simp add: valid_config_def)
  consider (gwp) "state (light s) = GREENWAITPRESSED" | (gw) "state (light s) = GREENWAIT"
    | (g) "state (light s) = GREEN" | (y) "state (light s) = YELLOW" | (r) "state (light s) = RED"
    by (cases "state (light s)") auto
  then show ?thesis
  proof cases
    case gwp
    let ?s' = "?x\<lparr>light := (light ?x)\<lparr>state := YELLOW\<rparr>,
            cars := (cars ?x)\<lparr>driving := map (\<lambda>car. car\<lparr>shouldstop := True\<rparr>) (driving (cars ?x))\<rparr>,
            log_sim := log_sim ?x @ LightChanged YELLOW
                         # map (\<lambda>car. CarShouldStop (id_car car)) (driving (cars ?x)),
            queue := queue ?x
              @ [\<lparr>at_ev = time ?x + YELLOWTIMEOUT, type_ev = TimerExpire, id_ev = - 1\<rparr>],
            totalevents := totalevents ?x + 1\<rparr>"
    have "to_yellow ?x = Inr ?s'" using gwp by (intro to_yellow_effect [OF okx vcx]) simp
    then have s': "Light_timer Owner ?x = Inr ?s'" using gwp by (simp add: Light_timer_def)
    have st: "stopped (cars s) = []" using ls gwp by (intro light_sound_stopped_nil) simp_all
    have ca': "cars_accounted (tr @ log_sim ?s') ?s'"
      by (rule cars_accounted_frame [OF cax])
        (simp_all add: car_exits_append car_stops_append car_releases_append car_free_shouldstop)
    have ok': "cars_ok ?s'" by (rule cars_ok_frame [OF okx]) simp_all
    have ep': "exits_pending ?s'" by (rule exits_pending_frame [OF epx]) simp_all
    have ls': "light_sound ?s'" using st by (simp add: light_sound_def)
    have ps': "peds_sound ?s'" by (rule peds_sound_frame [OF psx]) simp_all
    show ?thesis unfolding nx s' using ca' ok' ep' ls' ps' by (simp add: cars_sound_def)
  next
    case gw
    let ?s' = "?x\<lparr>light := (light ?x)\<lparr>state := GREEN\<rparr>\<rparr>"
    have s': "Light_timer Owner ?x = Inr ?s'" using gw by (simp add: Light_timer_def)
    have st: "stopped (cars s) = []" using ls gw by (intro light_sound_stopped_nil) simp_all
    have ca': "cars_accounted (tr @ log_sim ?s') ?s'"
      by (rule cars_accounted_frame [OF cax]) simp_all
    have ok': "cars_ok ?s'" by (rule cars_ok_frame [OF okx]) simp_all
    have ep': "exits_pending ?s'" by (rule exits_pending_frame [OF epx]) simp_all
    have ls': "light_sound ?s'" using st by (simp add: light_sound_def)
    have ps': "peds_sound ?s'" by (rule peds_sound_frame [OF psx]) simp_all
    show ?thesis unfolding nx s' using ca' ok' ep' ls' ps' by (simp add: cars_sound_def)
  next
    case g
    have s': "Light_timer Owner ?x = Inr ?x" using g by (simp add: Light_timer_def)
    have st: "stopped (cars s) = []" using ls g by (intro light_sound_stopped_nil) simp_all
    have ls': "light_sound ?x" using st g by (simp add: light_sound_def)
    show ?thesis unfolding nx s' using cax okx epx ls' psx by (simp add: cars_sound_def)
  next
    case y
    let ?x2 = "?x\<lparr>log_sim := log_sim ?x @ [LightChanged RED],
                light := (light ?x)\<lparr>state := RED, walkexpire := time ?x + REDTIMEOUT\<rparr>\<rparr>"
    have d1: "distinct (map id_ped (walking (peds s) @ waiting (peds s)))"
      using ps by (simp add: peds_sound_def)
    have dw: "distinct (map id_ped (waiting (peds ?x2)))" using d1 by simp
    have dj: "id_ped ` set (waiting (peds ?x2)) \<inter> id_ped ` set (walking (peds ?x2)) = {}"
      using d1 by auto
    let ?ws = "waiting (peds s)"
    let ?s' = "?x\<lparr>light := (light s)\<lparr>state := RED, walkexpire := at_ev ev + REDTIMEOUT\<rparr>,
         peds := (peds s)\<lparr>waiting := drop 21 ?ws, count_pm := int (min (length ?ws) 20)\<rparr>,
         peddelay := foldl (\<lambda>w p. Welford_insert (at_ev ev - at_ped p - atlight p) w)
                          (peddelay s) (take 20 ?ws),
         log_sim := LightChanged RED
                      # map (\<lambda>p. PedCrossed (id_ped p) (at_ev ev - at_ped p - atlight p))
                             (take 20 ?ws),
         queue := remove1 ev (queue s)
              @ [\<lparr>at_ev = at_ev ev + REDTIMEOUT, type_ev = TimerExpire, id_ev = - 1\<rparr>],
         totalevents := totalevents s + 1\<rparr>"
    have "Light_timer Owner ?x =
        (case PedManager_deploy ?x2 of Inl e \<Rightarrow> Inl e
         | Inr s2 \<Rightarrow> Inr (Simulation_insert REDTIMEOUT TimerExpire (- 1) s2))"
      using y by (intro Light_timer_yellow_owner) simp
    then have s': "Light_timer Owner ?x = Inr ?s'"
      unfolding deploy_spec [OF dw dj]
      by (simp add: Simulation_insert_def heappush_def popped_def)
    have ca': "cars_accounted (tr @ log_sim ?s') ?s'"
      by (rule cars_accounted_frame [OF cax])
        (simp_all add: car_exits_append car_stops_append car_releases_append car_free_crossed)
    have ok': "cars_ok ?s'" by (rule cars_ok_frame [OF okx]) simp_all
    have ep': "exits_pending ?s'" by (rule exits_pending_frame [OF epx]) simp_all
    have ls': "light_sound ?s'" by (simp add: light_sound_def)
    have sub: "set (drop 21 ?ws) \<subseteq> set ?ws" by (rule set_drop_subset)
    have ps': "peds_sound ?s'"
      unfolding peds_sound_def
    proof (intro conjI)
      have "distinct (map id_ped (drop 21 ?ws))" using d1 by (simp add: distinct_drop drop_map [symmetric])
      then show "distinct (map id_ped (walking (peds ?s') @ waiting (peds ?s')))"
        using d1 sub by auto
      show "\<forall>e \<in> set (queue ?s'). type_ev e = PedArrive
              \<longrightarrow> id_ev e \<in> id_ped ` set (walking (peds ?s'))"
        using psx by (auto simp: peds_sound_def)
      show "distinct (map id_ev (filter (\<lambda>e. type_ev e = PedArrive) (queue ?s')))"
        using psx by (simp add: peds_sound_def)
      have "id_ped ` set (walking (peds s) @ drop 21 ?ws)
              \<subseteq> id_ped ` set (walking (peds s) @ ?ws)"
        using sub by (intro image_mono) auto
      also have "\<dots> \<subseteq> {1..npeds s}" using ps by (simp add: peds_sound_def)
      finally show "id_ped ` set (walking (peds ?s') @ waiting (peds ?s')) \<subseteq> {1..npeds ?s'}"
        by simp
      show "0 \<le> npeds ?s'" using ps by (simp add: peds_sound_def)
    qed
    show ?thesis unfolding nx s' using ca' ok' ep' ls' ps' by (simp add: cars_sound_def)
  next
    case r
    let ?x1 = "add_log (LightChanged GREEN) (?x\<lparr>light := (light ?x)\<lparr>state := GREENWAIT\<rparr>\<rparr>)"
    let ?cs = "stopped (cars s)"
    have tot: "total (cars s) = 2586" using vc by (simp add: valid_config_def)
    have built: "\<forall>car \<in> set (stopped (cars ?x1)). speed car \<noteq> 0"
      using cars_ok_speed(2) [OF ok] by (simp add: add_log_def popped_def)
    let ?d = "\<lambda>car. release_delay 2586 (at_ev ev) car"
    let ?t = "\<lambda>car. release_time 2586 (at_ev ev) car"
    let ?s' = "?x\<lparr>light := (light s)\<lparr>state := GREENWAIT\<rparr>,
         cars := (cars s)\<lparr>stopped := []\<rparr>,
         cardelay := foldl (\<lambda>w car. Welford_insert (?d car) w) (cardelay s) (rev ?cs),
         log_sim := LightChanged GREEN
                      # map (\<lambda>car. CarLeft (id_car car) (?t car) (?d car)) (rev ?cs),
         queue := remove1 ev (queue s)
              @ [\<lparr>at_ev = at_ev ev + GREENTIMEOUT, type_ev = TimerExpire, id_ev = - 1\<rparr>],
         totalevents := totalevents s + 1\<rparr>"
    have "CarManager_lightchange GREEN ?x1 = lightchange_green (length (stopped (cars ?x1))) ?x1"
      by (simp add: CarManager_lightchange_def)
    also have "\<dots> = Inr (?x1\<lparr>cars := (cars ?x1)
                \<lparr>stopped := take (length (stopped (cars ?x1)) - length (stopped (cars ?x1)))
                              (stopped (cars ?x1))\<rparr>,
            cardelay := foldl (\<lambda>w car. Welford_insert
                                 (release_delay (total (cars ?x1)) (time ?x1) car) w) (cardelay ?x1)
                          (take (length (stopped (cars ?x1))) (rev (stopped (cars ?x1)))),
            log_sim := log_sim ?x1
                         @ map (\<lambda>car. CarLeft (id_car car)
                                  (release_time (total (cars ?x1)) (time ?x1) car)
                                  (release_delay (total (cars ?x1)) (time ?x1) car))
                             (take (length (stopped (cars ?x1))) (rev (stopped (cars ?x1))))\<rparr>)"
      by (rule lightchange_green_spec [OF built]) simp
    finally have lc: "CarManager_lightchange GREEN ?x1 = Inr (?x1\<lparr>cars := (cars s)\<lparr>stopped := []\<rparr>,
            cardelay := foldl (\<lambda>w car. Welford_insert (?d car) w) (cardelay s) (rev ?cs),
            log_sim := LightChanged GREEN
                         # map (\<lambda>car. CarLeft (id_car car) (?t car) (?d car)) (rev ?cs)\<rparr>)"
      by (simp add: add_log_def popped_def tot)
    have s': "Light_timer Owner ?x = Inr ?s'"
      using r lc by (simp add: Light_timer_def Let_def Simulation_insert_def heappush_def
          add_log_def popped_def)
    have cd: "cardelay s = Welford_of (map snd (car_exits tr))"
      using ca by (simp add: cars_accounted_def)
    have nonneg: "\<forall>car \<in> set ?cs. - (1 / 2 ^ 44) \<le> ?d car"
    proof
      fix car assume c: "car \<in> set ?cs"
      with okx have "stoptime car \<le> at_ev ev" "car_built car" "33 \<le> speed car" "speed car \<le> 52"
        by (simp_all add: cars_ok_def popped_def)
      then have le: "stoptime car \<le> at_ev ev"
        and e: "\<bar>?d car - (at_ev ev - stoptime car)\<bar>
                 \<le> 1 / 2 ^ 44 + \<bar>at_ev ev - stoptime car\<bar> / 2 ^ 50"
        using release_delay_error [of car "at_ev ev"] by simp_all
      define i where "i = at_ev ev - stoptime car"
      have i: "0 \<le> i" using le by (simp add: i_def)
      then have "i / 2 ^ 50 \<le> i" by (simp add: field_simps)
      with e i show "- (1 / 2 ^ 44) \<le> ?d car"
        unfolding i_def [symmetric] by (simp add: abs_le_iff)
    qed
    let ?R = "map (\<lambda>car. (id_car car, ?d car)) (rev ?cs)"
    have ce: "car_exits (tr @ log_sim ?s') = car_exits tr @ ?R"
      and cst: "car_stops (tr @ log_sim ?s') = car_stops tr"
      and cr: "car_releases (tr @ log_sim ?s') = car_releases tr @ rev (map id_car ?cs)"
      by (simp_all add: car_exits_append car_stops_append car_releases_append car_left_entries
          rev_map)
    have fR: "map fst ?R = rev (map id_car ?cs)" by (simp add: comp_def rev_map)
    have sR: "map snd ?R = map ?d (rev ?cs)" by (simp add: comp_def)
    have cd': "cardelay ?s' = Welford_of (map snd (car_exits tr @ ?R))"
      unfolding map_append sR by (simp add: cd foldl_Welford)
    have nn': "\<forall>x \<in> set (car_exits tr @ ?R). - (1 / 2 ^ 44) \<le> snd x"
      using ca nonneg by (auto simp: cars_accounted_def)
    have ca': "cars_accounted (tr @ log_sim ?s') ?s'"
      unfolding cars_accounted_def ce cst cr
    proof (intro conjI)
      show "cardelay ?s' = Welford_of (map snd (car_exits tr @ ?R))" by (rule cd')
      show "\<forall>x \<in> set (car_exits tr @ ?R). - (1 / 2 ^ 44) \<le> snd x" by (rule nn')
      show "distinct (map id_car (driving (cars ?s')) @ map id_car (stopped (cars ?s'))
                @ map fst (car_exits tr @ ?R))"
        unfolding map_append fR using ca by (auto simp: cars_accounted_def)
      show "set (map id_car (driving (cars ?s')) @ map id_car (stopped (cars ?s'))
                @ map fst (car_exits tr @ ?R)) = {1..ncars ?s'}"
        unfolding map_append fR using ca by (auto simp: cars_accounted_def)
      show "set (car_stops tr) = id_car ` set (stopped (cars ?s'))
              \<union> set (car_releases tr @ rev (map id_car ?cs))"
        using ca by (auto simp: cars_accounted_def)
      show "0 \<le> ncars ?s'" using ca by (simp add: cars_accounted_def)
    qed
    have ok': "cars_ok ?s'" using okx by (simp add: cars_ok_def)
    have ep': "exits_pending ?s'" by (rule exits_pending_frame [OF epx]) simp_all
    have ls': "light_sound ?s'" by (simp add: light_sound_def)
    have ps': "peds_sound ?s'" by (rule peds_sound_frame [OF psx]) simp_all
    show ?thesis unfolding nx s' using ca' ok' ep' ls' ps' by (simp add: cars_sound_def)
  qed
qed

lemma peds_sound_frame2:
  assumes "peds_sound s" and "walking (peds s') = walking (peds s)"
    and "waiting (peds s') = waiting (peds s)" and "npeds s' = npeds s"
    and "filter (\<lambda>e. type_ev e = PedArrive) (queue s')
         = filter (\<lambda>e. type_ev e = PedArrive) (queue s)"
  shows "peds_sound s'"
proof -
  have "{e \<in> set (queue s'). type_ev e = PedArrive} = {e \<in> set (queue s). type_ev e = PedArrive}"
    using arg_cong [OF assms(5), of set] by simp
  then have "\<forall>e \<in> set (queue s'). type_ev e = PedArrive \<longrightarrow> e \<in> set (queue s)" by blast
  then show ?thesis using assms unfolding peds_sound_def by auto
qed

lemma neutral_update:
  assumes ca: "cars_accounted (tr @ log_sim s) s" and cs: "cars_sound s" and ps: "peds_sound s"
    and f: "cars s' = cars s" "light s' = light s" "peds s' = peds s" "npeds s' = npeds s"
      "ncars s' = ncars s" "cardelay s' = cardelay s" "time s' = time s"
    and q: "queue s' = queue s @ new" "\<forall>e \<in> set new. type_ev e \<noteq> PedArrive"
    and l: "log_sim s' = log_sim s @ l" "car_exits l = []" "car_stops l = []"
      "car_releases l = []"
  shows "cars_accounted (tr @ log_sim s') s' \<and> cars_sound s' \<and> peds_sound s'"
proof -
  from cs have ok: "cars_ok s" and ep: "exits_pending s" and ls: "light_sound s"
    by (simp_all add: cars_sound_def)
  have 1: "cars_accounted (tr @ log_sim s') s'"
    by (rule cars_accounted_frame [OF ca])
      (simp_all add: f l car_exits_append car_stops_append car_releases_append)
  have 2: "cars_ok s'" by (rule cars_ok_frame [OF ok]) (simp_all add: f)
  have 3: "exits_pending s'" by (rule exits_pending_frame [OF ep]) (simp_all add: f q)
  have 4: "light_sound s'" by (rule light_sound_frame [OF ls]) (simp_all add: f q)
  have "filter (\<lambda>e. type_ev e = PedArrive) new = []" using q(2) by (simp add: filter_empty_conv)
  then have 5: "peds_sound s'" by (intro peds_sound_frame [OF ps]) (simp_all add: f q)
  from 1 2 3 4 5 show ?thesis by (simp add: cars_sound_def)
qed

lemma step_PedImpatient:
  assumes inv: "run_inv tr s" and hp: "heappop_returns (queue s) ev"
    and ty: "type_ev ev = PedImpatient"
  shows "\<exists>s'. Simulation_next Owner ev s = Inr s'
           \<and> cars_accounted (tr @ log_sim s') s' \<and> cars_sound s' \<and> peds_sound s'"
proof -
  let ?x = "popped ev s"
  from inv have ca: "cars_accounted tr s" and ok: "cars_ok s" and ep: "exits_pending s"
    and ls: "light_sound s" and ps: "peds_sound s" and pa: "pending_ahead s"
    and vc: "valid_config s"
    by (simp_all add: run_inv_def cars_sound_def)
  have nx: "Simulation_next Owner ev s = PedManager_impatient (id_ev ev) ?x"
    using ty by (simp add: next_popped)
  have cax: "cars_accounted (tr @ log_sim ?x) ?x" by (rule popped_cars_accounted [OF ca])
  have okx: "cars_ok ?x" by (rule popped_cars_ok [OF ok pa hp])
  have epx: "exits_pending ?x" using ty by (intro popped_exits_pending [OF ep]) simp
  have lsx: "light_sound ?x" using ty by (intro popped_light_sound [OF ls]) simp
  have psx: "peds_sound ?x" using ty by (intro popped_peds_sound [OF ps]) simp
  have csx: "cars_sound ?x" using okx epx lsx by (simp add: cars_sound_def)
  have vcx: "valid_config ?x" using vc by (simp add: valid_config_def)
  obtain r pm where gp: "PedManager_getped (id_ev ev) False (peds ?x) = (r, pm)"
    by (cases "PedManager_getped (id_ev ev) False (peds ?x)") auto
  show ?thesis
  proof (cases r)
    case None
    with gp have "PedManager_impatient (id_ev ev) ?x = Inr ?x"
      by (simp add: PedManager_impatient_def)
    then show ?thesis unfolding nx using cax csx psx by simp
  next
    case (Some ped)
    let ?y = "add_log (PedGrownImpatient (id_ev ev)) ?x"
    have iy: "cars_accounted (tr @ log_sim ?y) ?y \<and> cars_sound ?y \<and> peds_sound ?y"
      by (rule neutral_update [OF cax csx psx, where new = "[]" and l = "[PedGrownImpatient (id_ev ev)]"])
        (simp_all add: add_log_def)
    have vcy: "valid_config ?y" using vcx by (simp add: valid_config_def add_log_def)
    from iy have "cars_ok ?y" by (simp add: cars_sound_def)
    from press_effect [OF this vcy] obtain s1 where
      s1: "PedManager_press 0 (id_ev ev) ?y = Inr s1" and be: "button_effect ?y s1" by blast
    have i1: "cars_accounted (tr @ log_sim s1) s1" "cars_sound s1" "peds_sound s1"
      using iy button_effect_cars_accounted [OF be] button_effect_cars_sound [OF be]
        button_effect_peds_sound [OF be] by simp_all
    let ?s' = "Simulation_insert 60.0 PedImpatient (id_ev ev) s1"
    have s': "PedManager_impatient (id_ev ev) ?x = Inr ?s'"
      using gp Some s1 by (simp add: PedManager_impatient_def)
    have "cars_accounted (tr @ log_sim ?s') ?s' \<and> cars_sound ?s' \<and> peds_sound ?s'"
      by (rule neutral_update [OF i1, where l = "[]"
            and new = "[\<lparr>at_ev = time s1 + 60.0, type_ev = PedImpatient, id_ev = id_ev ev\<rparr>]"])
        (simp_all add: Simulation_insert_def heappush_def)
    then show ?thesis unfolding nx s' by simp
  qed
qed

lemma enqueue_step:
  assumes ca: "cars_accounted (tr @ log_sim y) y" and cs: "cars_sound y" and ps: "peds_sound y"
    and vc: "valid_config y"
    and fresh: "id_ped ped \<notin> id_ped ` set (walking (peds y) @ waiting (peds y))"
    and rng: "id_ped ped \<in> {1..npeds y}"
  shows "\<exists>s'. enqueue ped ident y = Inr s'
           \<and> cars_accounted (tr @ log_sim s') s' \<and> cars_sound s' \<and> peds_sound s'"
proof -
  from cs have "cars_ok y" by (simp add: cars_sound_def)
  from press_effect [OF this vc] obtain s1 where
    s1: "PedManager_press (int (length (waiting (peds y)))) ident y = Inr s1"
    and be: "button_effect y s1" by blast
  note f = button_effect_fields [OF be]
  have i1: "cars_accounted (tr @ log_sim s1) s1" "cars_sound s1" "peds_sound s1"
    using ca cs ps button_effect_cars_accounted [OF be] button_effect_cars_sound [OF be]
      button_effect_peds_sound [OF be] by simp_all
  from i1(2) have ok1: "cars_ok s1" and ep1: "exits_pending s1" and ls1: "light_sound s1"
    by (simp_all add: cars_sound_def)
  let ?s' = "Simulation_insert 60.0 PedImpatient ident
                 (add_log (PedWaiting ident)
                    (s1\<lparr>peds := (peds s1)\<lparr>waiting := waiting (peds s1) @ [ped]\<rparr>\<rparr>))"
  have s': "enqueue ped ident y = Inr ?s'" using s1 by (simp add: enqueue_def)
  have 1: "cars_accounted (tr @ log_sim ?s') ?s'"
    by (rule cars_accounted_frame [OF i1(1)])
      (simp_all add: Simulation_insert_def add_log_def car_exits_append car_stops_append
        car_releases_append)
  have 2: "cars_ok ?s'"
    by (rule cars_ok_frame [OF ok1]) (simp_all add: Simulation_insert_def add_log_def)
  have 3: "exits_pending ?s'"
    by (rule exits_pending_frame [OF ep1])
      (simp_all add: Simulation_insert_def add_log_def heappush_def)
  have 4: "light_sound ?s'"
    by (rule light_sound_frame [OF ls1])
      (simp_all add: Simulation_insert_def add_log_def heappush_def)
  have 5: "peds_sound ?s'"
    using i1(3) fresh rng f(2,3)
    unfolding peds_sound_def
    by (auto simp: Simulation_insert_def add_log_def heappush_def)
  from 1 2 3 4 5 s' show ?thesis by (simp add: cars_sound_def)
qed

lemma popped_arrive:
  assumes ps: "peds_sound s" and hp: "heappop_returns (queue s) ev"
    and ty: "type_ev ev = PedArrive"
  shows "peds_sound (popped ev s)"
    and "id_ev ev \<in> id_ped ` set (walking (peds s))"
    and "\<forall>e \<in> set (queue (popped ev s)). type_ev e = PedArrive \<longrightarrow> id_ev e \<noteq> id_ev ev"
proof -
  let ?F = "filter (\<lambda>e. type_ev e = PedArrive) (queue s)"
  have ev: "ev \<in> set (queue s)" using hp by (simp add: heappop_returns_def)
  then have evF: "ev \<in> set ?F" using ty by simp
  have dF: "distinct (map id_ev ?F)" using ps by (simp add: peds_sound_def)
  then have dist: "distinct ?F" and inj: "inj_on id_ev (set ?F)" by (simp_all add: distinct_map)
  have fr: "filter (\<lambda>e. type_ev e = PedArrive) (remove1 ev (queue s)) = remove1 ev ?F"
    by (simp add: filter_remove1)
  show "id_ev ev \<in> id_ped ` set (walking (peds s))"
    using ps ev ty by (simp add: peds_sound_def)
  show 3: "\<forall>e \<in> set (queue (popped ev s)). type_ev e = PedArrive \<longrightarrow> id_ev e \<noteq> id_ev ev"
  proof (intro ballI impI)
    fix e assume "e \<in> set (queue (popped ev s))" "type_ev e = PedArrive"
    then have "e \<in> set (remove1 ev ?F)" unfolding fr [symmetric] by simp
    then have "e \<in> set ?F" "e \<noteq> ev" using dist by simp_all
    with inj evF show "id_ev e \<noteq> id_ev ev" by (auto dest: inj_onD)
  qed
  have "distinct (map id_ev (remove1 ev ?F))" using dF by (rule distinct_map_remove1)
  moreover have "set (remove1 ev (queue s)) \<subseteq> set (queue s)" by (rule set_remove1_subset)
  ultimately show "peds_sound (popped ev s)"
    using ps unfolding peds_sound_def popped_fields fr by auto
qed

lemma step_PedArrive:
  assumes inv: "run_inv tr s" and hp: "heappop_returns (queue s) ev"
    and ty: "type_ev ev = PedArrive"
  shows "\<exists>s'. Simulation_next Owner ev s = Inr s'
           \<and> cars_accounted (tr @ log_sim s') s' \<and> cars_sound s' \<and> peds_sound s'"
proof -
  let ?x = "popped ev s"
  from inv have ca: "cars_accounted tr s" and ok: "cars_ok s" and ep: "exits_pending s"
    and ls: "light_sound s" and ps: "peds_sound s" and pa: "pending_ahead s"
    and vc: "valid_config s"
    by (simp_all add: run_inv_def cars_sound_def)
  have nx: "Simulation_next Owner ev s = PedManager_arrive (id_ev ev) ?x"
    using ty by (simp add: next_popped)
  have cax: "cars_accounted (tr @ log_sim ?x) ?x" by (rule popped_cars_accounted [OF ca])
  have okx: "cars_ok ?x" by (rule popped_cars_ok [OF ok pa hp])
  have epx: "exits_pending ?x" using ty by (intro popped_exits_pending [OF ep]) simp
  have lsx: "light_sound ?x" using ty by (intro popped_light_sound [OF ls]) simp
  have csx: "cars_sound ?x" using okx epx lsx by (simp add: cars_sound_def)
  have vcx: "valid_config ?x" using vc by (simp add: valid_config_def)
  note pp = popped_arrive [OF ps hp ty]
  from pp(2) obtain p0 where "p0 \<in> set (walking (peds s))" "id_ped p0 = id_ev ev" by auto
  then obtain pre ped post where sf:
    "split_first (\<lambda>ped. id_ped ped = id_ev ev) (walking (peds s)) = Some (pre, ped, post)"
    using split_first_found [of p0 "walking (peds s)" "\<lambda>ped. id_ped ped = id_ev ev"] by auto
  from split_first_Some [OF sf] have wk: "walking (peds s) = pre @ ped # post"
    and idp: "id_ped ped = id_ev ev" by auto
  let ?pm = "(peds s)\<lparr>walking := pre @ post\<rparr>"
  let ?x1 = "?x\<lparr>peds := ?pm\<rparr>"
  have gp: "PedManager_getped (id_ev ev) True (peds ?x) = (Some ped, ?pm)"
    using sf by (simp add: PedManager_getped_def)
  have d1: "distinct (map id_ped (walking (peds s) @ waiting (peds s)))"
    and sub: "id_ped ` set (walking (peds s) @ waiting (peds s)) \<subseteq> {1..npeds s}"
    using ps by (simp_all add: peds_sound_def)
  have fresh: "id_ped ped \<notin> id_ped ` set (walking (peds ?x1) @ waiting (peds ?x1))"
    using d1 wk by auto
  have rng: "id_ped ped \<in> {1..npeds ?x1}" using sub wk by auto
  have ps1: "peds_sound ?x1"
    unfolding peds_sound_def
  proof (intro conjI)
    show "distinct (map id_ped (walking (peds ?x1) @ waiting (peds ?x1)))"
      using d1 wk by auto
    show "\<forall>e \<in> set (queue ?x1). type_ev e = PedArrive
            \<longrightarrow> id_ev e \<in> id_ped ` set (walking (peds ?x1))"
    proof (intro ballI impI)
      fix e assume e: "e \<in> set (queue ?x1)" "type_ev e = PedArrive"
      then have "id_ev e \<noteq> id_ev ev" using pp(3) by simp
      moreover have "id_ev e \<in> id_ped ` set (walking (peds s))"
        using pp(1) e by (simp add: peds_sound_def)
      ultimately show "id_ev e \<in> id_ped ` set (walking (peds ?x1))"
        using wk idp by auto
    qed
    show "distinct (map id_ev (filter (\<lambda>e. type_ev e = PedArrive) (queue ?x1)))"
      using pp(1) by (simp add: peds_sound_def)
    show "id_ped ` set (walking (peds ?x1) @ waiting (peds ?x1)) \<subseteq> {1..npeds ?x1}"
      using sub wk by auto
    show "0 \<le> npeds ?x1" using ps by (simp add: peds_sound_def)
  qed
  have i1: "cars_accounted (tr @ log_sim ?x1) ?x1" "cars_sound ?x1"
  proof -
    show "cars_accounted (tr @ log_sim ?x1) ?x1"
      by (rule cars_accounted_frame [OF cax]) simp_all
    have "cars_ok ?x1" by (rule cars_ok_frame [OF okx]) simp_all
    moreover have "exits_pending ?x1" by (rule exits_pending_frame [OF epx]) simp_all
    moreover have "light_sound ?x1" by (rule light_sound_frame [OF lsx]) simp_all
    ultimately show "cars_sound ?x1" by (simp add: cars_sound_def)
  qed
  have vc1: "valid_config ?x1" using vcx by (simp add: valid_config_def)
  from enqueue_step [OF i1 ps1 vc1 fresh rng] obtain sq where
    sq: "enqueue ped (id_ev ev) ?x1 = Inr sq"
      "cars_accounted (tr @ log_sim sq) sq" "cars_sound sq" "peds_sound sq" by blast
  let ?y = "add_log (PedTooLate (id_ev ev)) ?x1"
  have iy: "cars_accounted (tr @ log_sim ?y) ?y \<and> cars_sound ?y \<and> peds_sound ?y"
    by (rule neutral_update [OF i1 ps1, where new = "[]" and l = "[PedTooLate (id_ev ev)]"])
      (simp_all add: add_log_def)
  have vcy: "valid_config ?y" using vc1 by (simp add: valid_config_def add_log_def)
  have freshy: "id_ped ped \<notin> id_ped ` set (walking (peds ?y) @ waiting (peds ?y))"
    using fresh by (simp add: add_log_def)
  have rngy: "id_ped ped \<in> {1..npeds ?y}" using rng by (simp add: add_log_def)
  from iy enqueue_step [OF _ _ _ vcy freshy rngy] obtain sl where
    sl: "enqueue ped (id_ev ev) ?y = Inr sl"
      "cars_accounted (tr @ log_sim sl) sl" "cars_sound sl" "peds_sound sl" by blast
  let ?delay = "time ?x1 - at_ped ped - atlight ped"
  let ?sc = "add_log (PedCrossed (id_ped ped) ?delay)
                   (?x1\<lparr>peds := (peds ?x1)\<lparr>count_pm := count_pm (peds ?x1) + 1\<rparr>,
                      peddelay := Welford_insert ?delay (peddelay ?x1)\<rparr>)"
  have ic: "cars_accounted (tr @ log_sim ?sc) ?sc \<and> cars_sound ?sc \<and> peds_sound ?sc"
  proof -
    have 1: "cars_accounted (tr @ log_sim ?sc) ?sc"
      by (rule cars_accounted_frame [OF i1(1)])
        (simp_all add: add_log_def car_exits_append car_stops_append car_releases_append)
    from i1(2) have ok1: "cars_ok ?x1" and ep1: "exits_pending ?x1" and ls1: "light_sound ?x1"
      by (simp_all add: cars_sound_def)
    have 2: "cars_ok ?sc" by (rule cars_ok_frame [OF ok1]) (simp_all add: add_log_def)
    have 3: "exits_pending ?sc" by (rule exits_pending_frame [OF ep1]) (simp_all add: add_log_def)
    have 4: "light_sound ?sc" by (rule light_sound_frame [OF ls1]) (simp_all add: add_log_def)
    have 5: "peds_sound ?sc" by (rule peds_sound_frame2 [OF ps1]) (simp_all add: add_log_def)
    from 1 2 3 4 5 show ?thesis by (simp add: cars_sound_def)
  qed
  have cross: "PedManager_cross ped ?x1
      = (if count_pm (peds ?x1) < MAXPEDS then Inr ?sc else Inl StopIteration)"
    by (simp add: PedManager_cross_def Let_def)
  have arr: "PedManager_arrive (id_ev ev) ?x =
      (if state (light ?x1) = RED \<and> walktime ped \<le> walkexpire (light ?x1) - time ?x1
       then (if count_pm (peds ?x1) < MAXPEDS then Inr ?sc else enqueue ped (id_ev ev) ?x1)
       else if state (light ?x1) = RED then enqueue ped (id_ev ev) ?y
       else enqueue ped (id_ev ev) ?x1)"
    unfolding PedManager_arrive_def gp by (simp add: Let_def cross)
  show ?thesis
    unfolding nx arr using sq sl ic by auto
qed

lemma run_inv_step:
  assumes inv: "run_inv tr s" and hp: "heappop_returns (queue s) ev"
  shows "\<exists>s'. Simulation_next Owner ev s = Inr s' \<and> run_inv (tr @ log_sim s') s'"
proof -
  have "\<exists>s'. Simulation_next Owner ev s = Inr s'
           \<and> cars_accounted (tr @ log_sim s') s' \<and> cars_sound s' \<and> peds_sound s'"
  proof (cases "type_ev ev")
    case TimerExpire
    then show ?thesis by (rule step_TimerExpire [OF inv hp])
  next
    case PedSpawn
    then show ?thesis by (rule step_PedSpawn [OF inv hp])
  next
    case PedArrive
    then show ?thesis by (rule step_PedArrive [OF inv hp])
  next
    case PedImpatient
    then show ?thesis by (rule step_PedImpatient [OF inv hp])
  next
    case CarSpawn
    then show ?thesis by (rule step_CarSpawn [OF inv hp])
  next
    case CarArrive
    then show ?thesis by (rule step_CarArrive [OF inv hp])
  next
    case CarExit
    then show ?thesis by (rule step_CarExit [OF inv hp])
  qed
  then obtain s' where s': "Simulation_next Owner ev s = Inr s'"
    "cars_accounted (tr @ log_sim s') s'" "cars_sound s'" "peds_sound s'" by blast
  from inv have "valid_config s" "pending_ahead s" by (simp_all add: run_inv_def)
  from pending_ahead_next [OF s'(1) this hp] have "pending_ahead s'" "valid_config s'" by simp_all
  with s' show ?thesis by (auto simp: run_inv_def)
qed

lemma insert_PedSpawn_fields:
  assumes "insert_PedSpawn s = Inr s'"
  shows "cars s' = cars s" "peds s' = peds s" "light s' = light s" "ncars s' = ncars s"
    "npeds s' = npeds s" "cardelay s' = cardelay s" "log_sim s' = log_sim s"
    "\<exists>e. queue s' = queue s @ [e] \<and> type_ev e = PedSpawn"
  using assms
  by (auto simp: insert_PedSpawn_def Simulation_insert_def heappush_def split: sum.splits)

lemma insert_CarSpawn_fields:
  assumes "insert_CarSpawn s = Inr s'"
  shows "cars s' = cars s" "peds s' = peds s" "light s' = light s" "ncars s' = ncars s"
    "npeds s' = npeds s" "cardelay s' = cardelay s" "log_sim s' = log_sim s"
    "\<exists>e. queue s' = queue s @ [e] \<and> type_ev e = CarSpawn"
  using assms
  by (auto simp: insert_CarSpawn_def Simulation_insert_def heappush_def split: sum.splits)

lemma run_inv_init:
  assumes init: "Simulation_init n a p b = Inr s0"
    and g: "good_source a" "good_source p" "good_source b"
  shows "run_inv [] s0"
proof -
  let ?f = "Simulation_fields n a p b"
  from init obtain s1 s2 s3 where st: "insert_PedSpawn ?f = Inr s1" "insert_PedSpawn s1 = Inr s2"
    "insert_CarSpawn s2 = Inr s3" "insert_CarSpawn s3 = Inr s0"
    by (auto simp: Simulation_init_def split: sum.splits)
  note f1 = insert_PedSpawn_fields [OF st(1)] and f2 = insert_PedSpawn_fields [OF st(2)]
    and f3 = insert_CarSpawn_fields [OF st(3)] and f4 = insert_CarSpawn_fields [OF st(4)]
  have c: "cars s0 = CarManager_init" "peds s0 = PedManager_init" "light s0 = Light_init"
    "ncars s0 = 0" "npeds s0 = 0" "cardelay s0 = Welford_init"
    using f1(1-6) f2(1-6) f3(1-6) f4(1-6) by (simp_all add: Simulation_fields_def)
  from f1(8) f2(8) f3(8) f4(8) obtain e1 e2 e3 e4 where
    q: "queue s0 = [e1, e2, e3, e4]" "type_ev e1 = PedSpawn" "type_ev e2 = PedSpawn"
       "type_ev e3 = CarSpawn" "type_ev e4 = CarSpawn"
    by (auto simp: Simulation_fields_def)
  have 1: "cars_accounted [] s0"
    by (simp add: cars_accounted_def c CarManager_init_def Let_def Welford_of_def)
  have 2: "cars_sound s0"
    by (simp add: cars_sound_def cars_ok_def exits_pending_def light_sound_def c
        CarManager_init_def Let_def Light_init_def)
  have 3: "peds_sound s0"
    using q by (simp add: peds_sound_def c PedManager_init_def)
  from Simulation_init_valid [OF init g] have "valid_config s0" "pending_ahead s0" by simp_all
  with 1 2 3 show ?thesis by (simp add: run_inv_def)
qed

lemma run_inv_run:
  assumes "run Owner s0 tr s" and "run_inv [] s0"
  shows "run_inv tr s"
  using assms
proof (induction rule: run.induct)
  case run_start
  then show ?case by simp
next
  case (run_next tr s ev s')
  then have "run_inv tr s" by simp
  from run_inv_step [OF this run_next.hyps(2)] run_next.hyps(3) show ?case by auto
qed

lemma Simulation_init_succeeds:
  assumes "good_source a" "good_source p" "good_source b"
  shows "\<exists>s0. Simulation_init n a p b = Inr s0"
proof -
  let ?f = "Simulation_fields n a p b"
  have v0: "valid_config ?f" using assms by (rule Simulation_fields_valid)
  have ped: "valid_config s \<Longrightarrow> \<exists>s'. insert_PedSpawn s = Inr s'" for s
  proof -
    assume v: "valid_config s"
    then have "good_source (pedrandom s)" "0 < lambdap s" by (simp_all add: valid_config_def)
    then obtain d p' where "exponential (lambdap s) (pedrandom s) = Inr (d, p')"
      by (rule exponential_good)
    then show ?thesis by (simp add: insert_PedSpawn_def)
  qed
  have car: "valid_config s \<Longrightarrow> \<exists>s'. insert_CarSpawn s = Inr s'" for s
  proof -
    assume v: "valid_config s"
    then have "good_source (autorandom s)" "0 < lambdaa s" by (simp_all add: valid_config_def)
    then obtain d p' where "exponential (lambdaa s) (autorandom s) = Inr (d, p')"
      by (rule exponential_good)
    then show ?thesis by (simp add: insert_CarSpawn_def)
  qed
  from ped [OF v0] obtain s1 where s1: "insert_PedSpawn ?f = Inr s1" ..
  from ahead_insert_PedSpawn [OF s1 v0] have v1: "valid_config s1" by simp
  from ped [OF v1] obtain s2 where s2: "insert_PedSpawn s1 = Inr s2" ..
  from ahead_insert_PedSpawn [OF s2 v1] have v2: "valid_config s2" by simp
  from car [OF v2] obtain s3 where s3: "insert_CarSpawn s2 = Inr s3" ..
  from ahead_insert_CarSpawn [OF s3 v2] have v3: "valid_config s3" by simp
  from car [OF v3] obtain s4 where s4: "insert_CarSpawn s3 = Inr s4" ..
  from s1 s2 s3 s4 show ?thesis by (simp add: Simulation_init_def)
qed

lemma unreleased_exit_sample:
  "(c, d) \<in> set (car_exits tr) \<Longrightarrow> c \<notin> set (car_releases tr) \<Longrightarrow> d = 0"
proof (induction tr)
  case Nil
  then show ?case by simp
next
  case (Cons m tr)
  then show ?case by (cases m) (auto split: if_splits)
qed

text \<open>
  In every state of a run in which the global \<^verbatim>\<open>sim\<close> is the simulation itself and the
  draws lie in \<open>[0, 1)\<close>, with \<open>tr\<close> the messages logged so far: every car spawned
  (identifiers \<open>1, \<dots>, ncars\<close>) is in exactly one of \<^verbatim>\<open>driving\<close>, \<^verbatim>\<open>stopped\<close> and the
  cars that have left, and has left at most once; the car-delay accumulator holds
  exactly one sample for each car that has left, which is not below \<open>- 2\<^sup>-\<^sup>4\<^sup>4\<close>, and
  is 0 for a car never moved to \<^verbatim>\<open>stopped\<close>; a car released at green had been moved
  to \<^verbatim>\<open>stopped\<close>. No dispatch raises an exception, and when the queue is empty every
  spawned car has left. This is a statement about the states reached, not about how
  long a run goes on.
\<close>

lemma owner_run_accounts_cars:
  assumes "good_source a" and "good_source p" and "good_source b"
    and "Simulation_init n a p b = Inr s0"
    and "run Owner s0 tr s"
  shows "distinct (map id_car (driving (cars s)) @ map id_car (stopped (cars s))
                   @ map fst (car_exits tr))
    \<and> set (map id_car (driving (cars s)) @ map id_car (stopped (cars s))
                   @ map fst (car_exits tr)) = {1..ncars s}
    \<and> cardelay s = Welford_of (map snd (car_exits tr))
    \<and> (\<forall>x \<in> set (car_exits tr). - (1 / 2 ^ 44) \<le> snd x \<and> (fst x \<notin> set (car_stops tr) \<longrightarrow> snd x = 0))
    \<and> set (car_releases tr) \<subseteq> set (car_stops tr)
    \<and> (queue s = [] \<longrightarrow> driving (cars s) = [] \<and> stopped (cars s) = []
          \<and> set (map fst (car_exits tr)) = {1..ncars s})
    \<and> (\<forall>ev. heappop_returns (queue s) ev \<longrightarrow> (\<exists>s'. Simulation_next Owner ev s = Inr s'))"
proof -
  have "run_inv [] s0" using assms(4,1,2,3) by (rule run_inv_init)
  with assms(5) have inv: "run_inv tr s" by (rule run_inv_run)
  then have ca: "cars_accounted tr s" and ep: "exits_pending s" and ls: "light_sound s"
    by (simp_all add: run_inv_def cars_sound_def)
  have rel: "set (car_releases tr) \<subseteq> set (car_stops tr)"
    using ca by (auto simp: cars_accounted_def)
  have samples: "\<forall>x \<in> set (car_exits tr). - (1 / 2 ^ 44) \<le> snd x \<and> (fst x \<notin> set (car_stops tr) \<longrightarrow> snd x = 0)"
  proof (intro ballI conjI impI)
    fix x assume x: "x \<in> set (car_exits tr)"
    then show "- (1 / 2 ^ 44) \<le> snd x" using ca by (simp add: cars_accounted_def)
    assume "fst x \<notin> set (car_stops tr)"
    with rel have "fst x \<notin> set (car_releases tr)" by blast
    with x show "snd x = 0" using unreleased_exit_sample [of "fst x" "snd x" tr] by simp
  qed
  have fin: "queue s = [] \<longrightarrow> driving (cars s) = [] \<and> stopped (cars s) = []
          \<and> set (map fst (car_exits tr)) = {1..ncars s}"
  proof
    assume q: "queue s = []"
    with ep have d: "driving (cars s) = []" by (cases "driving (cars s)") (auto simp: exits_pending_def)
    from q ls have "state (light s) = GREEN" by (auto simp: light_sound_def)
    with ls have st: "stopped (cars s) = []" by (auto simp: light_sound_def)
    from ca d st show "driving (cars s) = [] \<and> stopped (cars s) = []
          \<and> set (map fst (car_exits tr)) = {1..ncars s}"
      by (simp add: cars_accounted_def)
  qed
  have prog: "\<forall>ev. heappop_returns (queue s) ev \<longrightarrow> (\<exists>s'. Simulation_next Owner ev s = Inr s')"
    using run_inv_step [OF inv] by blast
  from ca rel samples fin prog show ?thesis
    unfolding cars_accounted_def by blast
qed

section \<open>A car that never leaves\<close>

text \<open>
  Claim C3 says that every spawned car exits the simulation, exactly once and with
  exactly one delay sample. It does not hold for a simulation built by another caller
  than the script's own main block, where the module-level name \<^verbatim>\<open>sim\<close> that
  \<^verbatim>\<open>Light.timer\<close> reads is unbound. The run below is \<^verbatim>\<open>Simulation(1, a, p, b).start()\<close>
  with these draws: the pedestrian source gives 0, \<open>1 - exp (-10)\<close>, 0, \<open>1 - exp (-10)\<close>,
  the car source \<open>1 - exp (-8)\<close>, \<open>1 - exp (-16)\<close>, 0, \<open>1 - exp (-16)\<close>, and the button
  source \<open>1 / 2\<close>. \<^verbatim>\<open>__init__\<close> schedules pedestrians at 0 and 200 and cars at 120 and 240.
  Pedestrian 1 is spawned at 0 with speed 2.6, car 1 at 120 with speed 100/3; its exit
  is scheduled at \<open>120 + 2586 / (100 / 3) = 197.58\<close>. Pedestrian 1 reaches the button at
  \<open>1880 / 13\<close> (about 144.6) and presses it (\<open>1 / 2 \<ge> 1 - 15 / 16\<close>): the light turns
  yellow, car 1 is told to stop, and the timer is set to \<open>1984 / 13\<close> (about 152.6).
  After these three events the state \<open>s\<close> has car 1 in \<^verbatim>\<open>driving\<close>, no delay sample
  recorded, and the timer expiry as the only event that \<^verbatim>\<open>heappop\<close> can return next (it
  is the only pending event at or before \<open>1984 / 13\<close>). Its dispatch raises
  \<^verbatim>\<open>NameError\<close>, which \<^verbatim>\<open>start\<close> does not catch (it catches \<^verbatim>\<open>StopIteration\<close> and
  \<^verbatim>\<open>IndexError\<close> only): the run is over, car 1 was spawned and has neither left
  \<^verbatim>\<open>driving\<close> nor got a delay sample. (With the name bound to the simulation itself, as
  in the script's main block, the states of a run keep the cars accounted for: lemma
  \<open>owner_run_accounts_cars\<close> above.)
\<close>

theorem unbound_run_strands_car:
  "\<exists>s0 tr s.
      Simulation_init 1
        (PyRandom (\<lambda>k. if k = 0 then 1 - exp (- 8) else if k = 2 then 0 else 1 - exp (- 16)) 0)
        (PyRandom (\<lambda>k. if k = 0 \<or> k = 2 then 0 else 1 - exp (- 10)) 0)
        (PyRandom (\<lambda>_. 1 / 2) 0) = Inr s0
    \<and> run Unbound s0 tr s
    \<and> ncars s = 1 \<and> map id_car (driving (cars s)) = [1] \<and> stopped (cars s) = []
    \<and> cardelay s = Welford_init
    \<and> state (light s) = YELLOW
    \<and> filter (\<lambda>e. at_ev e \<le> 1984 / 13) (queue s)
        = [\<lparr>at_ev = 1984 / 13, type_ev = TimerExpire, id_ev = - 1\<rparr>]
    \<and> Simulation_next Unbound \<lparr>at_ev = 1984 / 13, type_ev = TimerExpire, id_ev = - 1\<rparr> s
        = Inl NameError"
proof -
  let ?fA = "\<lambda>k :: nat. if k = 0 then 1 - exp (- 8) else if k = 2 then 0 else 1 - exp (- 16) :: real"
  let ?fP = "\<lambda>k :: nat. if k = 0 \<or> k = 2 then 0 else 1 - exp (- 10) :: real"
  let ?B = "PyRandom (\<lambda>_. 1 / 2 :: real)"
  define BD :: real where "BD = 3909374676536889 / 70368744177664"
  define BT :: real where "BT = 7505999378950827 / 2251799813685248"
  have sq: "fl ((100 / 3) ^ 2) = 4886718345671111 / 4398046511104"
    by (subst fl_up [where k = 10]) (simp_all add: rne_def power2_eq_square)
  have "fl (4886718345671111 / 4398046511104 / 20) = 3909374676536889 / 70368744177664"
    by (subst fl_up [where k = 5]) (simp_all add: rne_def)
  then have bd: "fl (fl ((100 / 3) ^ 2) / 20) = BD" by (simp only: sq BD_def)
  have "fl (100 / 3 / 10) = 7505999378950827 / 2251799813685248"
    by (subst fl_up [where k = 1]) (simp_all add: rne_def)
  then have bt: "fl (100 / 3 / 10) = BT" by (simp only: BT_def)
  define ped where "ped = \<lparr>id_ped = 1, at_ped = 0, speed_ped = 13 / 5, atlight = 1880 / 13,
                            walktime = 230 / 13\<rparr>"
  define car where "car = \<lparr>id_car = 1, atime = 120, speed = 100 / 3, brakedist = BD,
                            braketime = BT, shouldstop = False, stoptime = - 1\<rparr>"
  define S0 where "S0 = (Simulation_fields 1 (PyRandom ?fA 2) (PyRandom ?fP 2) (?B 0))
      \<lparr>queue := [\<lparr>at_ev = 0, type_ev = PedSpawn, id_ev = - 1\<rparr>,
                 \<lparr>at_ev = 200, type_ev = PedSpawn, id_ev = - 1\<rparr>,
                 \<lparr>at_ev = 120, type_ev = CarSpawn, id_ev = - 1\<rparr>,
                 \<lparr>at_ev = 240, type_ev = CarSpawn, id_ev = - 1\<rparr>],
        totalevents := 4\<rparr>"
  define S1 where "S1 = S0
      \<lparr>queue := [\<lparr>at_ev = 200, type_ev = PedSpawn, id_ev = - 1\<rparr>,
                 \<lparr>at_ev = 120, type_ev = CarSpawn, id_ev = - 1\<rparr>,
                 \<lparr>at_ev = 240, type_ev = CarSpawn, id_ev = - 1\<rparr>,
                 \<lparr>at_ev = 1880 / 13, type_ev = PedArrive, id_ev = 1\<rparr>,
                 \<lparr>at_ev = 200, type_ev = PedSpawn, id_ev = - 1\<rparr>],
        eventcount := 1, npeds := 1, pedrandom := PyRandom ?fP 4,
        peds := PedManager_init\<lparr>walking := [ped]\<rparr>,
        totalevents := 6, log_sim := [PedSpawned 1]\<rparr>"
  define S2 where "S2 = S1
      \<lparr>queue := [\<lparr>at_ev = 200, type_ev = PedSpawn, id_ev = - 1\<rparr>,
                 \<lparr>at_ev = 240, type_ev = CarSpawn, id_ev = - 1\<rparr>,
                 \<lparr>at_ev = 1880 / 13, type_ev = PedArrive, id_ev = 1\<rparr>,
                 \<lparr>at_ev = 200, type_ev = PedSpawn, id_ev = - 1\<rparr>,
                 \<lparr>at_ev = 120 + (1281 - BD) / (100 / 3), type_ev = CarArrive, id_ev = 1\<rparr>,
                 \<lparr>at_ev = 120 + 2586 / (100 / 3), type_ev = CarExit, id_ev = 1\<rparr>,
                 \<lparr>at_ev = 360, type_ev = CarSpawn, id_ev = - 1\<rparr>],
        time := 120, eventcount := 2, ncars := 1, autorandom := PyRandom ?fA 4,
        cars := CarManager_init\<lparr>driving := [car]\<rparr>,
        totalevents := 9, log_sim := [CarSpawned 1]\<rparr>"
  define S3 where "S3 = S2
      \<lparr>queue := [\<lparr>at_ev = 200, type_ev = PedSpawn, id_ev = - 1\<rparr>,
                 \<lparr>at_ev = 240, type_ev = CarSpawn, id_ev = - 1\<rparr>,
                 \<lparr>at_ev = 200, type_ev = PedSpawn, id_ev = - 1\<rparr>,
                 \<lparr>at_ev = 120 + (1281 - BD) / (100 / 3), type_ev = CarArrive, id_ev = 1\<rparr>,
                 \<lparr>at_ev = 120 + 2586 / (100 / 3), type_ev = CarExit, id_ev = 1\<rparr>,
                 \<lparr>at_ev = 360, type_ev = CarSpawn, id_ev = - 1\<rparr>,
                 \<lparr>at_ev = 1984 / 13, type_ev = TimerExpire, id_ev = - 1\<rparr>,
                 \<lparr>at_ev = 2660 / 13, type_ev = PedImpatient, id_ev = 1\<rparr>],
        time := 1880 / 13, eventcount := 3, buttonrandom := ?B 1,
        light := \<lparr>state = YELLOW, walkexpire = 0\<rparr>,
        peds := PedManager_init\<lparr>waiting := [ped]\<rparr>,
        cars := CarManager_init\<lparr>driving := [car\<lparr>shouldstop := True\<rparr>]\<rparr>,
        totalevents := 11,
        log_sim := [PedPressed 1, LightChanged YELLOW, CarShouldStop 1, PedWaiting 1]\<rparr>"
  have i: "Simulation_init 1 (PyRandom ?fA 0) (PyRandom ?fP 0) (?B 0) = Inr S0"
    unfolding S0_def
    by (simp add: Simulation_init_def insert_PedSpawn_def insert_CarSpawn_def
        Simulation_fields_def exponential_def math_log_def Simulation_insert_def heappush_def)
  have h1: "heappop_returns (queue S0) \<lparr>at_ev = 0, type_ev = PedSpawn, id_ev = - 1\<rparr>"
    unfolding S0_def by (simp add: heappop_returns_def lt_ev_def Simulation_fields_def)
  have n1: "Simulation_next Unbound \<lparr>at_ev = 0, type_ev = PedSpawn, id_ev = - 1\<rparr> S0 = Inr S1"
    unfolding S1_def S0_def ped_def
    by (simp add: Simulation_next_def Simulation_fields_def Ped_init_def uniform_def
        PedManager_spawn_def PedManager_init_def py_div_def insert_PedSpawn_def exponential_def
        math_log_def Let_def VKA_def VKB_def BLOCKWIDTH_def STREETWIDTH_def
        Simulation_insert_def heappush_def add_log_def)
  have h2: "heappop_returns (queue S1) \<lparr>at_ev = 120, type_ev = CarSpawn, id_ev = - 1\<rparr>"
    unfolding S1_def S0_def by (simp add: heappop_returns_def lt_ev_def Simulation_fields_def)
  have n2: "Simulation_next Unbound \<lparr>at_ev = 120, type_ev = CarSpawn, id_ev = - 1\<rparr> S1 = Inr S2"
    unfolding S2_def S1_def S0_def car_def using bd bt
    by (simp add: Simulation_next_def Simulation_fields_def Car_init_def uniform_def
        CarManager_spawn_def CarManager_init_def py_div_def insert_CarSpawn_def exponential_def
        math_log_def Let_def VJA_def VJB_def CARACC_def BLOCKWIDTH_def STREETWIDTH_def
        CROSSWIDTH_def LENGTH_def Simulation_insert_def heappush_def add_log_def)
  have h3: "heappop_returns (queue S2) \<lparr>at_ev = 1880 / 13, type_ev = PedArrive, id_ev = 1\<rparr>"
    unfolding S2_def by (simp add: heappop_returns_def lt_ev_def BD_def)
  have n3: "Simulation_next Unbound \<lparr>at_ev = 1880 / 13, type_ev = PedArrive, id_ev = 1\<rparr> S2
      = Inr S3"
    unfolding S3_def S2_def S1_def S0_def car_def ped_def
    by (simp add: Simulation_next_def Simulation_fields_def PedManager_arrive_def
        PedManager_getped_def PedManager_init_def enqueue_def PedManager_press_def bernouli_def
        Light_press_def Light_init_def to_yellow_def CarManager_lightchange_def posa_def posb_def
        CarManager_init_def py_div_def Let_def BLOCKWIDTH_def STREETWIDTH_def
        CROSSWIDTH_def LENGTH_def YELLOWTIMEOUT_def REDTIMEOUT_def
        Simulation_insert_def heappush_def add_log_def)
  have r: "run Unbound S0 ((([] @ log_sim S1) @ log_sim S2) @ log_sim S3) S3"
    by (intro run_next [OF _ h3 n3] run_next [OF _ h2 n2] run_next [OF _ h1 n1] run_start)
  have f: "ncars S3 = 1" "map id_car (driving (cars S3)) = [1]" "stopped (cars S3) = []"
    "cardelay S3 = Welford_init" "state (light S3) = YELLOW"
    unfolding S3_def S2_def S1_def S0_def car_def
    by (simp_all add: Simulation_fields_def CarManager_init_def Let_def)
  have q: "filter (\<lambda>e. at_ev e \<le> 1984 / 13) (queue S3)
        = [\<lparr>at_ev = 1984 / 13, type_ev = TimerExpire, id_ev = - 1\<rparr>]"
    unfolding S3_def by (simp add: BD_def)
  have n4: "Simulation_next Unbound \<lparr>at_ev = 1984 / 13, type_ev = TimerExpire, id_ev = - 1\<rparr> S3
        = Inl NameError"
    unfolding S3_def by (simp add: Simulation_next_def Light_timer_def Let_def add_log_def)
  show ?thesis
    apply (rule exI [of _ S0])
    apply (rule exI [of _ "(([] @ log_sim S1) @ log_sim S2) @ log_sim S3"])
    apply (rule exI [of _ S3])
    apply (simp only: i r f q n4 simp_thms)
    done
qed

end
